theory Spec2Isabelle
  imports Main "HOL-Library.Char_ord" "HOL-Library.List_Lexorder"
begin

section \<open>Go strings, bytes and runes\<close>

text \<open>
  A Go string is a sequence of bytes: it is modelled as \<open>string\<close> (a list of 8-bit
  characters). \<open>s[i]\<close> is \<open>s ! i\<close>, \<open>s[a:b]\<close> is \<open>slice s a b\<close>, \<open>len(s)\<close> is
  \<open>length s\<close>; comparisons of bytes such as \<open>'0' <= c\<close> use the order of
  \<open>HOL-Library.Char_ord\<close> (the order of the byte values), and \<open>s < t\<close> on strings is
  the byte-wise lexicographic order of \<open>HOL-Library.List_Lexorder\<close>, as in Go.
  A byte value and a rune (Go's \<open>int32\<close>) are integers.
\<close>

definition byte :: "char \<Rightarrow> int" where
  "byte c = of_char c"

definition slice :: "string \<Rightarrow> nat \<Rightarrow> nat \<Rightarrow> string" where
  "slice s a b = take (b - a) (drop a s)"

definition RuneSelf :: int where
  "RuneSelf = 128"

definition RuneError :: int where
  "RuneError = 65533"

text \<open>
  \<open>utf8.DecodeRuneInString\<close> of the Go library, which is what \<open>for _, r := range s\<close>
  applies at each position: the first rune of \<open>s\<close> and its width in bytes; an invalid or
  truncated encoding gives \<open>(RuneError, 1)\<close>. The second byte of a sequence has to lie
  in the range that the first byte permits (this excludes overlong forms, surrogates
  and values above U+10FFFF); further bytes lie in 0x80..0xBF. The bit masks of the
  library are written as \<open>mod\<close>.
\<close>

definition seqLen :: "int \<Rightarrow> nat" where
  "seqLen s0 = (if s0 < 224 then 2 else if s0 < 240 then 3 else 4)"

definition acceptRange :: "int \<Rightarrow> int \<times> int" where
  "acceptRange s0 =
     (if s0 = 224 then (160, 191)
      else if s0 = 237 then (128, 159)
      else if s0 = 240 then (144, 191)
      else if s0 = 244 then (128, 143)
      else (128, 191))"

definition DecodeRuneInString :: "string \<Rightarrow> int \<times> nat" where
  "DecodeRuneInString s =
     (if s = [] then (RuneError, 0)
      else let s0 = byte (s ! 0) in
        if s0 < RuneSelf then (s0, 1)
        else if s0 < 194 \<or> 244 < s0 then (RuneError, 1)
        else let sz = seqLen s0; lo = fst (acceptRange s0); hi = snd (acceptRange s0) in
          if length s < sz then (RuneError, 1)
          else let s1 = byte (s ! 1) in
            if s1 < lo \<or> hi < s1 then (RuneError, 1)
            else if sz \<le> 2 then ((s0 mod 32) * 64 + s1 mod 64, 2)
            else let s2 = byte (s ! 2) in
              if s2 < 128 \<or> 191 < s2 then (RuneError, 1)
              else if sz \<le> 3 then ((s0 mod 16) * 4096 + (s1 mod 64) * 64 + s2 mod 64, 3)
              else let s3 = byte (s ! 3) in
                if s3 < 128 \<or> 191 < s3 then (RuneError, 1)
                else ((s0 mod 8) * 262144 + (s1 mod 64) * 4096 + (s2 mod 64) * 64
                        + s3 mod 64, 4))"

text \<open>
  The iteration \<open>for _, r := range s\<close>: the rune and the width at each position, in
  order. Then the runes alone, and \<open>utf8.ValidString\<close>: no position of the iteration
  meets an invalid encoding.
\<close>

function rangeString :: "string \<Rightarrow> (int \<times> nat) list" where
  "rangeString s =
     (if s = [] then []
      else DecodeRuneInString s # rangeString (drop (snd (DecodeRuneInString s)) s))"
  by pat_completeness auto
termination
proof (relation "measure length")
  show "wf (measure length)" by simp
next
  fix s :: string
  assume "s \<noteq> []"
  then have "1 \<le> snd (DecodeRuneInString s)"
    by (simp add: DecodeRuneInString_def Let_def)
  with \<open>s \<noteq> []\<close> show "(drop (snd (DecodeRuneInString s)) s, s) \<in> measure length"
    by (cases s) auto
qed

declare rangeString.simps [simp del]

definition runes :: "string \<Rightarrow> int list" where
  "runes s = map fst (rangeString s)"

definition ValidString :: "string \<Rightarrow> bool" where
  "ValidString s = list_all (\<lambda>d. d \<noteq> (RuneError, 1)) (rangeString s)"

subsection \<open>Package strings\<close>

definition HasPrefix :: "string \<Rightarrow> string \<Rightarrow> bool" where
  "HasPrefix s pre = (take (length pre) s = pre)"

definition HasSuffix :: "string \<Rightarrow> string \<Rightarrow> bool" where
  "HasSuffix s suf = (length suf \<le> length s \<and> drop (length s - length suf) s = suf)"

definition TrimSuffix :: "string \<Rightarrow> string \<Rightarrow> string" where
  "TrimSuffix s suf = (if HasSuffix s suf then take (length s - length suf) s else s)"

text \<open>\<open>strings.Index\<close>: the position of the first occurrence; \<open>None\<close> stands for -1.\<close>

fun Index :: "string \<Rightarrow> string \<Rightarrow> nat option" where
  "Index [] sep = (if sep = [] then Some 0 else None)"
| "Index (c # s) sep =
     (if HasPrefix (c # s) sep then Some 0 else map_option Suc (Index s sep))"

definition Contains :: "string \<Rightarrow> string \<Rightarrow> bool" where
  "Contains s sub = (Index s sub \<noteq> None)"

text \<open>\<open>strings.Count(s, sep)\<close> for a separator of one byte.\<close>

definition Count :: "string \<Rightarrow> char \<Rightarrow> nat" where
  "Count s c = length (filter (\<lambda>x. x = c) s)"

text \<open>
  \<open>strings.EqualFold\<close>. The Go function compares under Unicode simple case folding.
  It is only called with a first argument from \<open>badWindowsNames\<close>, whose letters
  (none of them K or S) fold to nothing but their two ASCII cases, so that the
  comparison is the one of the bytes with ASCII letters upper-cased.
\<close>

definition asciiUpper :: "char \<Rightarrow> char" where
  "asciiUpper c = (if CHR ''a'' \<le> c \<and> c \<le> CHR ''z'' then char_of (byte c - 32) else c)"

definition EqualFold :: "string \<Rightarrow> string \<Rightarrow> bool" where
  "EqualFold s t = (map asciiUpper s = map asciiUpper t)"

text \<open>
  The pieces of \<open>s\<close> between the occurrences of the byte \<open>sep\<close>: the elements of
  a path for the slash, the identifiers of a pre-release for the dot.
\<close>

fun splitOn :: "char \<Rightarrow> string \<Rightarrow> string list" where
  "splitOn sep [] = [[]]"
| "splitOn sep (c # s) =
     (if c = sep then [] # splitOn sep s
      else (case splitOn sep s of e # es \<Rightarrow> (c # e) # es | [] \<Rightarrow> [[c]]))"

text \<open>The test \<open>'0' <= c && c <= '9'\<close>.\<close>

definition isDigit :: "char \<Rightarrow> bool" where
  "isDigit c = (CHR ''0'' \<le> c \<and> c \<le> CHR ''9'')"

text \<open>The ASCII letters of either case.\<close>

definition isUpper :: "char \<Rightarrow> bool" where
  "isUpper c = (CHR ''A'' \<le> c \<and> c \<le> CHR ''Z'')"

definition isLower :: "char \<Rightarrow> bool" where
  "isLower c = (CHR ''a'' \<le> c \<and> c \<le> CHR ''z'')"

section \<open>Errors\<close>

text \<open>
  Each \<open>fmt.Errorf\<close> of the package is a constructor carrying the values that the
  format string prints; a wrapped error is an argument.
\<close>

datatype error =
    InvalidUTF8
  | EmptyString
  | DoubleDot
  | DoubleSlash
  | TrailingSlash
  | EmptyPathElement
  | InvalidPathElement string
  | LeadingDot
  | TrailingDot
  | InvalidChar int
  | DisallowedOnWindows string
  | MalformedModulePath string error
  | LeadingSlash string
  | MissingDot string
  | LeadingDash string
  | InvalidCharFirst string int
  | InvalidVersion string
  | MalformedImportPath string error
  | MalformedFilePath string error
  | MalformedSemver string
  | MismatchedMajor string string string
  | DisallowedVersion string
  | InternalInconsistency
  | InvalidEscapedPath string
  | InvalidEscapedPathErr string error
  | InvalidEscapedVersion string
  | InvalidEscapedVersionErr string error

section \<open>Character classes\<close>

definition firstPathOK :: "int \<Rightarrow> bool" where
  "firstPathOK r =
     (r = byte CHR ''-'' \<or> r = byte CHR ''.'' \<or>
      byte CHR ''0'' \<le> r \<and> r \<le> byte CHR ''9'' \<or>
      byte CHR ''a'' \<le> r \<and> r \<le> byte CHR ''z'')"

definition pathOK :: "int \<Rightarrow> bool" where
  "pathOK r =
     (if r < RuneSelf then
        r = byte CHR ''+'' \<or> r = byte CHR ''-'' \<or> r = byte CHR ''.'' \<or>
        r = byte CHR ''_'' \<or> r = byte CHR ''~'' \<or>
        byte CHR ''0'' \<le> r \<and> r \<le> byte CHR ''9'' \<or>
        byte CHR ''A'' \<le> r \<and> r \<le> byte CHR ''Z'' \<or>
        byte CHR ''a'' \<le> r \<and> r \<le> byte CHR ''z''
      else False)"

text \<open>
  \<open>unicode.IsLetter\<close> is a table of the Go library; \<open>fileNameOK\<close> and the functions
  that reach it take it as the parameter \<open>isLetter\<close>.
\<close>

definition allowed :: string where
  "allowed = ''!#$%&()+,-.=@[]^_{}~ ''"

definition fileNameOK :: "(int \<Rightarrow> bool) \<Rightarrow> int \<Rightarrow> bool" where
  "fileNameOK isLetter r =
     (if r < RuneSelf then
        (if byte CHR ''0'' \<le> r \<and> r \<le> byte CHR ''9'' \<or>
            byte CHR ''A'' \<le> r \<and> r \<le> byte CHR ''Z'' \<or>
            byte CHR ''a'' \<le> r \<and> r \<le> byte CHR ''z'' then True
         else if \<exists>c \<in> set allowed. byte c = r then True
         else False)
      else isLetter r)"

section \<open>Checking paths\<close>

definition badWindowsNames :: "string list" where
  "badWindowsNames =
     [''CON'', ''PRN'', ''AUX'', ''NUL'',
      ''COM1'', ''COM2'', ''COM3'', ''COM4'', ''COM5'', ''COM6'', ''COM7'', ''COM8'', ''COM9'',
      ''LPT1'', ''LPT2'', ''LPT3'', ''LPT4'', ''LPT5'', ''LPT6'', ''LPT7'', ''LPT8'', ''LPT9'']"

definition checkElem :: "(int \<Rightarrow> bool) \<Rightarrow> string \<Rightarrow> bool \<Rightarrow> error option" where
  "checkElem isLetter elem fileName =
     (if elem = [] then Some EmptyPathElement
      else if Count elem CHR ''.'' = length elem then Some (InvalidPathElement elem)
      else if elem ! 0 = CHR ''.'' \<and> \<not> fileName then Some LeadingDot
      else if elem ! (length elem - 1) = CHR ''.'' then Some TrailingDot
      else let charOK = (if fileName then fileNameOK isLetter else pathOK) in
        case find (\<lambda>r. \<not> charOK r) (runes elem) of
          Some r \<Rightarrow> Some (InvalidChar r)
        | None \<Rightarrow>
           (let short = (case Index elem ''.'' of Some i \<Rightarrow> slice elem 0 i | None \<Rightarrow> elem) in
            case find (\<lambda>bad. EqualFold bad short) badWindowsNames of
              Some bad \<Rightarrow> Some (DisallowedOnWindows short)
            | None \<Rightarrow> None))"

text \<open>
  The loop \<open>for i, r := range path\<close> of \<open>checkPath\<close>, from byte position \<open>i\<close> with
  the current \<open>elemStart\<close>: the first error of an element, or the final \<open>elemStart\<close>.
\<close>

function checkPathLoop ::
    "(int \<Rightarrow> bool) \<Rightarrow> string \<Rightarrow> bool \<Rightarrow> nat \<Rightarrow> nat \<Rightarrow> error + nat" where
  "checkPathLoop isLetter path fileName i elemStart =
     (if length path \<le> i then Inr elemStart
      else if fst (DecodeRuneInString (drop i path)) = byte CHR ''/'' then
        (case checkElem isLetter (slice path elemStart i) fileName of
           Some err \<Rightarrow> Inl err
         | None \<Rightarrow>
             checkPathLoop isLetter path fileName
               (i + snd (DecodeRuneInString (drop i path))) (i + 1))
      else checkPathLoop isLetter path fileName
             (i + snd (DecodeRuneInString (drop i path))) elemStart)"
  by pat_completeness auto
termination
proof (relation "measure (\<lambda>(isLetter, path, fileName, i, elemStart). length path - i)")
  show "wf (measure (\<lambda>(isLetter :: int \<Rightarrow> bool, path :: string, fileName :: bool,
                       i :: nat, elemStart :: nat). length path - i))"
    by simp
next
  fix isLetter :: "int \<Rightarrow> bool" and path :: string and fileName :: bool
    and i elemStart :: nat
  assume "\<not> length path \<le> i"
  then have "1 \<le> snd (DecodeRuneInString (drop i path))"
    by (simp add: DecodeRuneInString_def Let_def)
  with \<open>\<not> length path \<le> i\<close>
  show "((isLetter, path, fileName, i + snd (DecodeRuneInString (drop i path)), i + 1),
         (isLetter, path, fileName, i, elemStart))
        \<in> measure (\<lambda>(isLetter, path, fileName, i, elemStart). length path - i)"
    by simp
next
  fix isLetter :: "int \<Rightarrow> bool" and path :: string and fileName :: bool
    and i elemStart :: nat
  assume "\<not> length path \<le> i"
  then have "1 \<le> snd (DecodeRuneInString (drop i path))"
    by (simp add: DecodeRuneInString_def Let_def)
  with \<open>\<not> length path \<le> i\<close>
  show "((isLetter, path, fileName, i + snd (DecodeRuneInString (drop i path)), elemStart),
         (isLetter, path, fileName, i, elemStart))
        \<in> measure (\<lambda>(isLetter, path, fileName, i, elemStart). length path - i)"
    by simp
qed

declare checkPathLoop.simps [simp del]

definition checkPath :: "(int \<Rightarrow> bool) \<Rightarrow> string \<Rightarrow> bool \<Rightarrow> error option" where
  "checkPath isLetter path fileName =
     (if \<not> ValidString path then Some InvalidUTF8
      else if path = [] then Some EmptyString
      else if Contains path ''..'' then Some DoubleDot
      else if Contains path ''//'' then Some DoubleSlash
      else if path ! (length path - 1) = CHR ''/'' then Some TrailingSlash
      else case checkPathLoop isLetter path fileName 0 0 of
             Inl err \<Rightarrow> Some err
           | Inr elemStart \<Rightarrow>
               checkElem isLetter (slice path elemStart (length path)) fileName)"

text \<open>
  What \<open>checkPath\<close> still does from a state \<open>(i, elemStart)\<close> of its loop: the rest
  of the loop and the check of the last element. \<open>checkPath\<close> is this from \<open>(0, 0)\<close>
  once its five tests on the whole path have passed.
\<close>

definition checkPathRest ::
    "(int \<Rightarrow> bool) \<Rightarrow> string \<Rightarrow> bool \<Rightarrow> nat \<Rightarrow> nat \<Rightarrow> error option" where
  "checkPathRest isLetter path fileName i elemStart =
     (case checkPathLoop isLetter path fileName i elemStart of
        Inl err \<Rightarrow> Some err
      | Inr elemStart' \<Rightarrow> checkElem isLetter (slice path elemStart' (length path)) fileName)"

definition CheckImportPath :: "(int \<Rightarrow> bool) \<Rightarrow> string \<Rightarrow> error option" where
  "CheckImportPath isLetter path =
     (case checkPath isLetter path False of
        Some err \<Rightarrow> Some (MalformedImportPath path err)
      | None \<Rightarrow> None)"

definition CheckFilePath :: "(int \<Rightarrow> bool) \<Rightarrow> string \<Rightarrow> error option" where
  "CheckFilePath isLetter path =
     (case checkPath isLetter path True of
        Some err \<Rightarrow> Some (MalformedFilePath path err)
      | None \<Rightarrow> None)"

section \<open>The major-version suffix of a path\<close>

text \<open>
  The backward scans of \<open>SplitPathVersion\<close> and \<open>splitGopkgIn\<close>, from the index
  \<open>i\<close> (the byte looked at is \<open>path[i-1]\<close>); the first also carries \<open>dot\<close>.
\<close>

fun splitLoop :: "string \<Rightarrow> nat \<Rightarrow> bool \<Rightarrow> nat \<times> bool" where
  "splitLoop path 0 dot = (0, dot)"
| "splitLoop path (Suc k) dot =
     (if CHR ''0'' \<le> path ! k \<and> path ! k \<le> CHR ''9'' \<or> path ! k = CHR ''.''
      then splitLoop path k (if path ! k = CHR ''.'' then True else dot)
      else (Suc k, dot))"

fun gopkgLoop :: "string \<Rightarrow> nat \<Rightarrow> nat" where
  "gopkgLoop path 0 = 0"
| "gopkgLoop path (Suc k) =
     (if CHR ''0'' \<le> path ! k \<and> path ! k \<le> CHR ''9'' then gopkgLoop path k else Suc k)"

definition splitGopkgIn :: "string \<Rightarrow> string \<times> string \<times> bool" where
  "splitGopkgIn path =
     (if \<not> HasPrefix path ''gopkg.in/'' then (path, [], False)
      else let i0 = (if HasSuffix path ''-unstable''
                     then length path - length ''-unstable'' else length path);
               i = gopkgLoop path i0 in
        if i \<le> 1 \<or> path ! (i - 1) \<noteq> CHR ''v'' \<or> path ! (i - 2) \<noteq> CHR ''.''
        then (path, [], False)
        else let prefix = slice path 0 (i - 2);
                 pathMajor = slice path (i - 2) (length path) in
          if length pathMajor \<le> 2 \<or> pathMajor ! 2 = CHR ''0'' \<and> pathMajor \<noteq> ''.v0''
          then (path, [], False)
          else (prefix, pathMajor, True))"

definition SplitPathVersion :: "string \<Rightarrow> string \<times> string \<times> bool" where
  "SplitPathVersion path =
     (if HasPrefix path ''gopkg.in/'' then splitGopkgIn path
      else let i = fst (splitLoop path (length path) False);
               dot = snd (splitLoop path (length path) False) in
        if i \<le> 1 \<or> i = length path \<or> path ! (i - 1) \<noteq> CHR ''v'' \<or> path ! (i - 2) \<noteq> CHR ''/''
        then (path, [], True)
        else let prefix = slice path 0 (i - 2);
                 pathMajor = slice path (i - 2) (length path) in
          if dot \<or> length pathMajor \<le> 2 \<or> pathMajor ! 2 = CHR ''0'' \<or> pathMajor = ''/v1''
          then (path, [], False)
          else (prefix, pathMajor, True))"

text \<open>The three results of \<open>SplitPathVersion\<close> by name.\<close>

definition split_prefix :: "string \<times> string \<times> bool \<Rightarrow> string" where
  "split_prefix r = fst r"

definition split_pathMajor :: "string \<times> string \<times> bool \<Rightarrow> string" where
  "split_pathMajor r = fst (snd r)"

definition split_ok :: "string \<times> string \<times> bool \<Rightarrow> bool" where
  "split_ok r = snd (snd r)"

section \<open>Module paths\<close>

definition CheckPath :: "(int \<Rightarrow> bool) \<Rightarrow> string \<Rightarrow> error option" where
  "CheckPath isLetter path =
     (case checkPath isLetter path False of
        Some err \<Rightarrow> Some (MalformedModulePath path err)
      | None \<Rightarrow>
         (let i = (case Index path ''/'' of Some k \<Rightarrow> k | None \<Rightarrow> length path) in
          if i = 0 then Some (LeadingSlash path)
          else if \<not> Contains (slice path 0 i) ''.'' then Some (MissingDot path)
          else if path ! 0 = CHR ''-'' then Some (LeadingDash path)
          else case find (\<lambda>r. \<not> firstPathOK r) (runes (slice path 0 i)) of
                 Some r \<Rightarrow> Some (InvalidCharFirst path r)
               | None \<Rightarrow>
                   if \<not> split_ok (SplitPathVersion path) then Some (InvalidVersion path)
                   else None))"

section \<open>Path and version together\<close>

text \<open>
  Package \<open>semver\<close> is a collaborator of this package. The functions of it that the
  package calls are the fields of a record, a parameter of every function that calls
  them: \<open>Compare\<close> is negative, zero or positive.
\<close>

record semver =
  IsValid :: "string \<Rightarrow> bool"
  Major :: "string \<Rightarrow> string"
  Build :: "string \<Rightarrow> string"
  Compare :: "string \<Rightarrow> string \<Rightarrow> int"

definition MatchPathMajor :: "semver \<Rightarrow> string \<Rightarrow> string \<Rightarrow> bool" where
  "MatchPathMajor sv v pathMajor0 =
     (let pathMajor =
            (if HasPrefix pathMajor0 ''.v'' \<and> HasSuffix pathMajor0 ''-unstable''
             then TrimSuffix pathMajor0 ''-unstable'' else pathMajor0) in
      if HasPrefix v ''v0.0.0-'' \<and> pathMajor = ''.v1'' then True
      else let m = Major sv v in
        if pathMajor = [] then m = ''v0'' \<or> m = ''v1'' \<or> Build sv v = ''+incompatible''
        else (pathMajor ! 0 = CHR ''/'' \<or> pathMajor ! 0 = CHR ''.'') \<and>
             m = slice pathMajor 1 (length pathMajor))"

definition Check :: "semver \<Rightarrow> (int \<Rightarrow> bool) \<Rightarrow> string \<Rightarrow> string \<Rightarrow> error option" where
  "Check sv isLetter path version =
     (case CheckPath isLetter path of
        Some err \<Rightarrow> Some err
      | None \<Rightarrow>
          if \<not> IsValid sv version then Some (MalformedSemver version)
          else let pathMajor = split_pathMajor (SplitPathVersion path) in
            if \<not> MatchPathMajor sv version pathMajor then
              (let pathMajor1 = (if pathMajor = [] then ''v0 or v1'' else pathMajor);
                   pathMajor2 = (if pathMajor1 ! 0 = CHR ''.''
                                 then slice pathMajor1 1 (length pathMajor1)
                                 else pathMajor1) in
               Some (MismatchedMajor path version pathMajor2))
            else None)"

section \<open>Sorting\<close>



section \<open>Escaping\<close>

text \<open>
  The first loop of \<open>escapeString\<close> over the runes: \<open>None\<close> when it returns the
  internal error, else the final \<open>haveUpper\<close>. The second loop appends to \<open>buf\<close>.
\<close>

fun escapeScan :: "int list \<Rightarrow> bool \<Rightarrow> bool option" where
  "escapeScan [] haveUpper = Some haveUpper"
| "escapeScan (r # rs) haveUpper =
     (if r = byte CHR ''!'' \<or> RuneSelf \<le> r then None
      else escapeScan rs (if byte CHR ''A'' \<le> r \<and> r \<le> byte CHR ''Z'' then True else haveUpper))"

fun escapeBuild :: "int list \<Rightarrow> string \<Rightarrow> string" where
  "escapeBuild [] buf = buf"
| "escapeBuild (r # rs) buf =
     (if byte CHR ''A'' \<le> r \<and> r \<le> byte CHR ''Z''
      then escapeBuild rs (buf @ [CHR ''!'', char_of (r + byte CHR ''a'' - byte CHR ''A'')])
      else escapeBuild rs (buf @ [char_of r]))"

definition escapeString :: "string \<Rightarrow> error + string" where
  "escapeString s =
     (case escapeScan (runes s) False of
        None \<Rightarrow> Inl InternalInconsistency
      | Some haveUpper \<Rightarrow>
          if \<not> haveUpper then Inr s else Inr (escapeBuild (runes s) []))"

definition EscapePath :: "(int \<Rightarrow> bool) \<Rightarrow> string \<Rightarrow> error + string" where
  "EscapePath isLetter path =
     (case CheckPath isLetter path of
        Some err \<Rightarrow> Inl err
      | None \<Rightarrow> escapeString path)"

definition EscapeVersion :: "(int \<Rightarrow> bool) \<Rightarrow> string \<Rightarrow> error + string" where
  "EscapeVersion isLetter v =
     (if checkElem isLetter v True \<noteq> None \<or> Contains v ''!'' then Inl (DisallowedVersion v)
      else escapeString v)"

text \<open>
  The loop of \<open>unescapeString\<close> over the runes, with the flag \<open>bang\<close> and the buffer;
  \<open>None\<close> is the result \<open>("", false)\<close>.
\<close>

fun unescapeLoop :: "int list \<Rightarrow> bool \<Rightarrow> string \<Rightarrow> string option" where
  "unescapeLoop [] bang buf = (if bang then None else Some buf)"
| "unescapeLoop (r # rs) bang buf =
     (if RuneSelf \<le> r then None
      else if bang then
        (if r < byte CHR ''a'' \<or> byte CHR ''z'' < r then None
         else unescapeLoop rs False (buf @ [char_of (r + byte CHR ''A'' - byte CHR ''a'')]))
      else if r = byte CHR ''!'' then unescapeLoop rs True buf
      else if byte CHR ''A'' \<le> r \<and> r \<le> byte CHR ''Z'' then None
      else unescapeLoop rs False (buf @ [char_of r]))"

definition unescapeString :: "string \<Rightarrow> string option" where
  "unescapeString escaped = unescapeLoop (runes escaped) False []"

definition UnescapePath :: "(int \<Rightarrow> bool) \<Rightarrow> string \<Rightarrow> error + string" where
  "UnescapePath isLetter escaped =
     (case unescapeString escaped of
        None \<Rightarrow> Inl (InvalidEscapedPath escaped)
      | Some path \<Rightarrow>
         (case CheckPath isLetter path of
            Some err \<Rightarrow> Inl (InvalidEscapedPathErr escaped err)
          | None \<Rightarrow> Inr path))"

definition UnescapeVersion :: "(int \<Rightarrow> bool) \<Rightarrow> string \<Rightarrow> error + string" where
  "UnescapeVersion isLetter escaped =
     (case unescapeString escaped of
        None \<Rightarrow> Inl (InvalidEscapedVersion escaped)
      | Some v \<Rightarrow>
         (case checkElem isLetter v True of
            Some err \<Rightarrow> Inl (InvalidEscapedVersionErr v err)
          | None \<Rightarrow> Inr v))"

section \<open>The collaborators at concrete inputs\<close>

text \<open>
  \<open>unicode.IsLetter\<close> on the runes up to U+00FF, the Latin-1 part of the table of the
  Go library: the ASCII letters, U+00AA, U+00B5, U+00BA, U+00C0 to U+00D6, U+00D8 to
  U+00F6 and U+00F8 to U+00FF. It stands for the parameter \<open>isLetter\<close> where a
  statement is evaluated at a concrete input, and is asked about no rune above U+00FF
  there.
\<close>

definition IsLetter_Latin1 :: "int \<Rightarrow> bool" where
  "IsLetter_Latin1 r =
     (65 \<le> r \<and> r \<le> 90 \<or> 97 \<le> r \<and> r \<le> 122 \<or> r = 170 \<or> r = 181 \<or> r = 186 \<or>
      192 \<le> r \<and> r \<le> 214 \<or> 216 \<le> r \<and> r \<le> 246 \<or> 248 \<le> r \<and> r \<le> 255)"

text \<open>
  Modelled from the spec: package \<open>semver\<close>, the version-comparison collaborator, is
  not among the sources. The spec names its interface: \<open>isValidSemver\<close>, \<open>major\<close>
  (as in \<open>v2\<close>), \<open>buildMetadata\<close> (as in \<open>+incompatible\<close>) and \<open>compare\<close> by
  semantic-version precedence. \<open>semver_model\<close> fills it with the grammar and the
  precedence of Semantic Versioning 2.0.0 behind a leading \<open>v\<close>, with the shorthands
  \<open>vMAJOR\<close> and \<open>vMAJOR.MINOR\<close>: numbers without leading zeros, an optional
  pre-release after \<open>-\<close>, an optional build after \<open>+\<close> that precedence ignores; an
  invalid version is below every valid one. The theorems of this file hold for every
  value of the record; the model only serves where one is evaluated at a concrete
  version.
\<close>

definition isIdentChar :: "char \<Rightarrow> bool" where
  "isIdentChar c = (isUpper c \<or> isLower c \<or> isDigit c \<or> c = CHR ''-'')"

definition isNum :: "string \<Rightarrow> bool" where
  "isNum v = list_all isDigit v"

definition isBadNum :: "string \<Rightarrow> bool" where
  "isBadNum v = (list_all isDigit v \<and> 1 < length v \<and> hd v = CHR ''0'')"

definition parseInt :: "string \<Rightarrow> (string \<times> string) option" where
  "parseInt v =
     (if v = [] then None
      else if \<not> isDigit (hd v) then None
      else if hd v = CHR ''0'' \<and> length (takeWhile isDigit v) \<noteq> 1 then None
      else Some (takeWhile isDigit v, dropWhile isDigit v))"

definition parsePrerelease :: "string \<Rightarrow> (string \<times> string) option" where
  "parsePrerelease v =
     (if v = [] \<or> hd v \<noteq> CHR ''-'' then None
      else let body = takeWhile (\<lambda>c. c \<noteq> CHR ''+'') (tl v);
               rest = dropWhile (\<lambda>c. c \<noteq> CHR ''+'') (tl v) in
        if \<not> list_all (\<lambda>c. isIdentChar c \<or> c = CHR ''.'') body then None
        else if list_ex (\<lambda>ident. ident = [] \<or> isBadNum ident) (splitOn CHR ''.'' body) then None
        else Some (CHR ''-'' # body, rest))"

definition parseBuild :: "string \<Rightarrow> (string \<times> string) option" where
  "parseBuild v =
     (if v = [] \<or> hd v \<noteq> CHR ''+'' then None
      else if \<not> list_all (\<lambda>c. isIdentChar c \<or> c = CHR ''.'') (tl v) then None
      else if list_ex (\<lambda>ident. ident = []) (splitOn CHR ''.'' (tl v)) then None
      else Some (v, []))"

record parsed =
  major :: string
  minor :: string
  patch :: string
  prerelease :: string
  build :: string

definition parseTail :: "string \<Rightarrow> string \<Rightarrow> string \<Rightarrow> string \<Rightarrow> parsed option" where
  "parseTail ma mi pa v =
     (case (if v \<noteq> [] \<and> hd v = CHR ''-'' then parsePrerelease v else Some ([], v)) of
        None \<Rightarrow> None
      | Some (pre, v1) \<Rightarrow>
         (case (if v1 \<noteq> [] \<and> hd v1 = CHR ''+'' then parseBuild v1 else Some ([], v1)) of
            None \<Rightarrow> None
          | Some (bld, v2) \<Rightarrow>
              if v2 \<noteq> [] then None
              else Some \<lparr>major = ma, minor = mi, patch = pa, prerelease = pre, build = bld\<rparr>))"

definition parse :: "string \<Rightarrow> parsed option" where
  "parse v =
     (if v = [] \<or> hd v \<noteq> CHR ''v'' then None
      else case parseInt (tl v) of
        None \<Rightarrow> None
      | Some (ma, v1) \<Rightarrow>
          if v1 = [] then
            Some \<lparr>major = ma, minor = ''0'', patch = ''0'', prerelease = [], build = []\<rparr>
          else if hd v1 \<noteq> CHR ''.'' then None
          else case parseInt (tl v1) of
            None \<Rightarrow> None
          | Some (mi, v2) \<Rightarrow>
              if v2 = [] then
                Some \<lparr>major = ma, minor = mi, patch = ''0'', prerelease = [], build = []\<rparr>
              else if hd v2 \<noteq> CHR ''.'' then None
              else case parseInt (tl v2) of
                None \<Rightarrow> None
              | Some (pa, v3) \<Rightarrow> parseTail ma mi pa v3)"

definition compareInt :: "string \<Rightarrow> string \<Rightarrow> int" where
  "compareInt x y =
     (if x = y then 0
      else if length x < length y then - 1
      else if length x > length y then 1
      else if x < y then - 1 else 1)"

text \<open>
  The pre-release parts \<open>x\<close> and \<open>y\<close> each start with \<open>-\<close> or are empty; the
  loop compares them identifier by identifier.
\<close>

function comparePrereleaseLoop :: "string \<Rightarrow> string \<Rightarrow> int" where
  "comparePrereleaseLoop x y =
     (if x \<noteq> [] \<and> y \<noteq> [] then
        (let dx = takeWhile (\<lambda>c. c \<noteq> CHR ''.'') (tl x);
             x1 = dropWhile (\<lambda>c. c \<noteq> CHR ''.'') (tl x);
             dy = takeWhile (\<lambda>c. c \<noteq> CHR ''.'') (tl y);
             y1 = dropWhile (\<lambda>c. c \<noteq> CHR ''.'') (tl y) in
         if dx \<noteq> dy then
           (if isNum dx \<noteq> isNum dy then (if isNum dx then - 1 else 1)
            else if isNum dx \<and> length dx < length dy then - 1
            else if isNum dx \<and> length dx > length dy then 1
            else if dx < dy then - 1 else 1)
         else comparePrereleaseLoop x1 y1)
      else if x = [] then - 1 else 1)"
  by pat_completeness auto
termination
proof (relation "measure (\<lambda>(x, y). length x)")
  show "wf (measure (\<lambda>(x :: string, y :: string). length x))" by simp
next
  fix x y :: string and dx x1 dy y1 :: string
  assume "x \<noteq> [] \<and> y \<noteq> []" and "x1 = dropWhile (\<lambda>c. c \<noteq> CHR ''.'') (tl x)"
  moreover have "length (dropWhile (\<lambda>c. c \<noteq> CHR ''.'') (tl x)) \<le> length (tl x)"
    by (rule length_dropWhile_le)
  ultimately show "((x1, y1), (x, y)) \<in> measure (\<lambda>(x, y). length x)"
    by (cases x) auto
qed

declare comparePrereleaseLoop.simps [simp del]

definition comparePrerelease :: "string \<Rightarrow> string \<Rightarrow> int" where
  "comparePrerelease x y =
     (if x = y then 0
      else if x = [] then 1
      else if y = [] then - 1
      else comparePrereleaseLoop x y)"

definition semver_Compare :: "string \<Rightarrow> string \<Rightarrow> int" where
  "semver_Compare v w =
     (case (parse v, parse w) of
        (None, None) \<Rightarrow> 0
      | (None, Some pw) \<Rightarrow> - 1
      | (Some pv, None) \<Rightarrow> 1
      | (Some pv, Some pw) \<Rightarrow>
          if compareInt (major pv) (major pw) \<noteq> 0 then compareInt (major pv) (major pw)
          else if compareInt (minor pv) (minor pw) \<noteq> 0 then compareInt (minor pv) (minor pw)
          else if compareInt (patch pv) (patch pw) \<noteq> 0 then compareInt (patch pv) (patch pw)
          else comparePrerelease (prerelease pv) (prerelease pw))"

definition semver_model :: semver where
  "semver_model =
     \<lparr>IsValid = (\<lambda>v. parse v \<noteq> None),
      Major = (\<lambda>v. case parse v of None \<Rightarrow> [] | Some pv \<Rightarrow> slice v 0 (1 + length (major pv))),
      Build = (\<lambda>v. case parse v of None \<Rightarrow> [] | Some pv \<Rightarrow> build pv),
      Compare = semver_Compare\<rparr>"

section \<open>Words of the specification\<close>

text \<open>A character of the run that the generic splitter scans: a digit or a dot.\<close>

definition digdot :: "char \<Rightarrow> bool" where
  "digdot c = (isDigit c \<or> c = CHR ''.'')"

text \<open>A byte below \<open>utf8.RuneSelf\<close>.\<close>

definition ascii :: "char \<Rightarrow> bool" where "ascii c = (byte c < 128)"

text \<open>
  The words of the import-path rule. An element is a piece of the path between
  slashes (\<open>splitOn CHR ''/''\<close>). \<open>import_char\<close>: an ASCII letter, a digit or one of
  \<open>+ - . _ ~\<close>. \<open>caseless_eq\<close>: equal when the ASCII letters are lower-cased.
  \<open>reserved_names\<close>: CON, PRN, AUX, NUL, COM1 to COM9, LPT1 to LPT9. \<open>element_ok\<close>:
  the element is not empty, does not consist of dots only, neither starts nor ends
  with a dot, has only the characters of \<open>import_char\<close>, and its part before the
  first dot is not a reserved name in any casing.
\<close>

definition import_char :: "char \<Rightarrow> bool" where
  "import_char c = (isLower c \<or> isUpper c \<or> isDigit c \<or> c \<in> set ''+-._~'')"

definition asciiLower :: "char \<Rightarrow> char" where
  "asciiLower c = (if isUpper c then char_of (byte c + 32) else c)"

definition caseless_eq :: "string \<Rightarrow> string \<Rightarrow> bool" where
  "caseless_eq s t = (map asciiLower s = map asciiLower t)"

definition reserved_names :: "string list" where
  "reserved_names =
     [''CON'', ''PRN'', ''AUX'', ''NUL''] @
     map (\<lambda>d. ''COM'' @ [d]) ''123456789'' @ map (\<lambda>d. ''LPT'' @ [d]) ''123456789''"

definition element_ok :: "string \<Rightarrow> bool" where
  "element_ok e =
     (e \<noteq> [] \<and> \<not> list_all (\<lambda>c. c = CHR ''.'') e \<and> hd e \<noteq> CHR ''.'' \<and> last e \<noteq> CHR ''.'' \<and>
      list_all import_char e \<and>
      \<not> list_ex (\<lambda>name. caseless_eq name (takeWhile (\<lambda>c. c \<noteq> CHR ''.'') e)) reserved_names)"

text \<open>
  The escaping rule in the words of the specification: every upper-case ASCII letter
  becomes \<open>!\<close> followed by its lower-case letter, every other character stays.
  \<open>plain\<close>: a string of ASCII bytes without \<open>!\<close>.
\<close>

definition escape_rule :: "string \<Rightarrow> string" where
  "escape_rule s = concat (map (\<lambda>c. if isUpper c then [CHR ''!'', asciiLower c] else [c]) s)"

definition plain :: "string \<Rightarrow> bool" where
  "plain s = list_all (\<lambda>c. ascii c \<and> c \<noteq> CHR ''!'') s"



text \<open>
  The expected major version that the error of \<open>Check\<close> prints for a path suffix:
  \<open>v0 or v1\<close> for the empty suffix, a suffix \<open>.vN\<close> without its dot, any other
  suffix as it is.
\<close>

definition wanted :: "string \<Rightarrow> string" where
  "wanted pathMajor =
     (if pathMajor = [] then ''v0 or v1''
      else if hd pathMajor = CHR ''.'' then tl pathMajor else pathMajor)"

section \<open>Properties of the suffix splitter\<close>

lemma slice_split: "slice s 0 k @ slice s k (length s) = s"
  by (simp add: slice_def)

lemma splitGopkgIn_cases:
  "splitGopkgIn path = (path, [], False) \<or>
   (\<exists>k. splitGopkgIn path = (slice path 0 k, slice path k (length path), True))"
  unfolding splitGopkgIn_def Let_def by auto

lemma SplitPathVersion_cases:
  "SplitPathVersion path = (path, [], False) \<or> SplitPathVersion path = (path, [], True) \<or>
   (\<exists>k. SplitPathVersion path = (slice path 0 k, slice path k (length path), True))"
  unfolding SplitPathVersion_def Let_def using splitGopkgIn_cases [of path] by auto

lemma trailing_run:
  "\<exists>pre run. s = pre @ run \<and> list_all P run \<and> (pre = [] \<or> \<not> P (last pre))"
proof (induction s rule: rev_induct)
  case Nil
  then show ?case by simp
next
  case (snoc c s)
  show ?case
  proof (cases "P c")
    case True
    from snoc obtain pre run where "s = pre @ run" "list_all P run" "pre = [] \<or> \<not> P (last pre)"
      by blast
    with True have "s @ [c] = pre @ (run @ [c]) \<and> list_all P (run @ [c]) \<and> (pre = [] \<or> \<not> P (last pre))"
      by simp
    then show ?thesis by blast
  next
    case False
    then have "s @ [c] = (s @ [c]) @ [] \<and> list_all P [] \<and> (s @ [c] = [] \<or> \<not> P (last (s @ [c])))"
      by simp
    then show ?thesis by blast
  qed
qed

lemma splitLoop_run:
  "list_all digdot run \<Longrightarrow> pre = [] \<or> \<not> digdot (last pre) \<Longrightarrow>
   splitLoop (pre @ run @ rest) (length pre + length run) dot =
     (length pre, dot \<or> CHR ''.'' \<in> set run)"
proof (induction run arbitrary: rest dot rule: rev_induct)
  case Nil
  show ?case
  proof (cases pre rule: rev_cases)
    case Nil
    then show ?thesis by simp
  next
    case (snoc p c)
    with Nil.prems have "\<not> digdot c" by simp
    with snoc show ?thesis by (auto simp: digdot_def isDigit_def nth_append)
  qed
next
  case (snoc c run)
  from snoc.prems have c: "digdot c" and run: "list_all digdot run" by simp_all
  have nth: "(pre @ (run @ [c]) @ rest) ! (length pre + length run) = c"
    by (simp add: nth_append)
  have "splitLoop (pre @ (run @ [c]) @ rest) (length pre + length (run @ [c])) dot =
        splitLoop (pre @ run @ ([c] @ rest)) (length pre + length run)
          (if c = CHR ''.'' then True else dot)"
    using c nth by (simp add: digdot_def isDigit_def)
  also have "\<dots> = (length pre, (if c = CHR ''.'' then True else dot) \<or> CHR ''.'' \<in> set run)"
    using snoc.IH [OF run snoc.prems(2)] by simp
  finally show ?case by auto
qed

lemma gopkgLoop_run:
  "list_all isDigit run \<Longrightarrow> pre = [] \<or> \<not> isDigit (last pre) \<Longrightarrow>
   gopkgLoop (pre @ run @ rest) (length pre + length run) = length pre"
proof (induction run arbitrary: rest rule: rev_induct)
  case Nil
  show ?case
  proof (cases pre rule: rev_cases)
    case Nil
    then show ?thesis by simp
  next
    case (snoc p c)
    with Nil.prems have "\<not> isDigit c" by simp
    with snoc show ?thesis by (auto simp: isDigit_def nth_append)
  qed
next
  case (snoc c run)
  from snoc.prems have c: "isDigit c" and run: "list_all isDigit run" by simp_all
  have nth: "(pre @ (run @ [c]) @ rest) ! (length pre + length run) = c"
    by (simp add: nth_append)
  have "gopkgLoop (pre @ (run @ [c]) @ rest) (length pre + length (run @ [c])) =
        gopkgLoop (pre @ run @ ([c] @ rest)) (length pre + length run)"
    using c nth by (simp add: isDigit_def)
  also have "\<dots> = length pre"
    using snoc.IH [OF run snoc.prems(2)] by simp
  finally show ?case .
qed


lemma SplitPathVersion_candidate:
  assumes ng: "\<not> HasPrefix path ''gopkg.in/''"
    and path: "path = pre @ ''/v'' @ run" and ne: "run \<noteq> []" and run: "list_all digdot run"
  shows "SplitPathVersion path =
     (if CHR ''.'' \<in> set run \<or> hd run = CHR ''0'' \<or> run = ''1'' then (path, [], False)
      else (pre, ''/v'' @ run, True))"
proof -
  define i where "i = length pre + 2"
  have dd: "\<not> digdot CHR ''v''" by (simp add: digdot_def isDigit_def)
  have loop: "splitLoop path (length path) False = (i, CHR ''.'' \<in> set run)"
    using splitLoop_run [of run "pre @ ''/v''" "[]" False] run dd path by (simp add: i_def)
  have cond: "\<not> (i \<le> 1 \<or> i = length path \<or> path ! (i - 1) \<noteq> CHR ''v'' \<or>
                 path ! (i - 2) \<noteq> CHR ''/'')"
    using path ne by (simp add: i_def nth_append)
  have pm: "slice path (i - 2) (length path) = ''/v'' @ run"
    and pr: "slice path 0 (i - 2) = pre"
    using path by (simp_all add: slice_def i_def)
  have hd: "(''/v'' @ run) ! 2 = hd run" using ne by (cases run) simp_all
  have len: "\<not> length (''/v'' @ run) \<le> 2" using ne by (cases run) simp_all
  have one: "(''/v'' @ run = ''/v1'') = (run = ''1'')" by simp
  have "SplitPathVersion path =
      (if CHR ''.'' \<in> set run \<or> length (''/v'' @ run) \<le> 2 \<or> (''/v'' @ run) ! 2 = CHR ''0'' \<or>
          ''/v'' @ run = ''/v1''
       then (path, [], False) else (pre, ''/v'' @ run, True))"
    unfolding SplitPathVersion_def Let_def loop fst_conv snd_conv pm pr
    using ng cond by simp
  then show ?thesis
    unfolding hd one using len by simp
qed

lemma SplitPathVersion_no_candidate:
  assumes ng: "\<not> HasPrefix path ''gopkg.in/''"
    and no: "\<not> (\<exists>pre run. path = pre @ ''/v'' @ run \<and> run \<noteq> [] \<and> list_all digdot run)"
  shows "SplitPathVersion path = (path, [], True)"
proof -
  obtain pre run where path: "path = pre @ run" and run: "list_all digdot run"
    and pre: "pre = [] \<or> \<not> digdot (last pre)"
    using trailing_run [of path digdot] by blast
  define i where "i = length pre"
  have loop: "splitLoop path (length path) False = (i, CHR ''.'' \<in> set run)"
    using splitLoop_run [of run pre "[]" False] run pre path by (simp add: i_def)
  have cond: "i \<le> 1 \<or> i = length path \<or> path ! (i - 1) \<noteq> CHR ''v'' \<or>
        path ! (i - 2) \<noteq> CHR ''/''"
  proof (rule ccontr)
    assume neg: "\<not> ?thesis"
    then have l: "2 \<le> length pre" and ne: "run \<noteq> []"
      using path by (auto simp: i_def)
    from l obtain q b where q: "pre = q @ [b]" by (cases pre rule: rev_cases) auto
    with l obtain p a where p: "q = p @ [a]" by (cases q rule: rev_cases) auto
    have "path ! (i - 1) = b" "path ! (i - 2) = a"
      using path q p by (simp_all add: i_def nth_append)
    with neg have "b = CHR ''v''" "a = CHR ''/''" by auto
    with path q p have "path = p @ ''/v'' @ run" by simp
    with no ne run show False by blast
  qed
  show ?thesis
    unfolding SplitPathVersion_def Let_def loop fst_conv snd_conv
    using ng cond by simp
qed


lemma HasSuffix_append: "HasSuffix (a @ b) b"
  by (simp add: HasSuffix_def)

lemma HasSuffix_last: "HasSuffix s suf \<Longrightarrow> suf \<noteq> [] \<Longrightarrow> s \<noteq> [] \<and> last s = last suf"
  by (metis HasSuffix_def append_take_drop_id last_appendR list.size(3) le_zero_eq length_0_conv)

lemma splitGopkgIn_shape:
  assumes g: "HasPrefix path ''gopkg.in/''"
    and path: "path = pre @ ''.v'' @ digits @ marker"
    and marker: "marker = [] \<or> marker = ''-unstable''"
    and digits: "list_all isDigit digits"
  shows "splitGopkgIn path =
     (if digits = [] \<and> marker = [] \<or>
         digits \<noteq> [] \<and> hd digits = CHR ''0'' \<and> \<not> (digits = ''0'' \<and> marker = [])
      then (path, [], False) else (pre, ''.v'' @ digits @ marker, True))"
proof -
  define i where "i = length pre + 2"
  have suf: "HasSuffix path ''-unstable'' \<longleftrightarrow> marker = ''-unstable''"
  proof
    assume h: "HasSuffix path ''-unstable''"
    show "marker = ''-unstable''"
    proof (rule ccontr)
      assume "marker \<noteq> ''-unstable''"
      with marker have m: "marker = []" by simp
      from HasSuffix_last [OF h] have l: "last path = CHR ''e''" by simp
      show False
      proof (cases digits rule: rev_cases)
        case Nil
        with m path l show False by simp
      next
        case (snoc ds d)
        with m path l have "d = CHR ''e''" by simp
        with snoc digits show False by (simp add: isDigit_def)
      qed
    qed
  next
    assume "marker = ''-unstable''"
    with path show "HasSuffix path ''-unstable''"
      using HasSuffix_append [of "pre @ ''.v'' @ digits" "''-unstable''"] by simp
  qed
  have i0: "(if HasSuffix path ''-unstable'' then length path - length ''-unstable''
             else length path) = length (pre @ ''.v'') + length digits"
    using suf marker path by auto
  have nd: "\<not> isDigit CHR ''v''" by (simp add: isDigit_def)
  have loop: "gopkgLoop path (length (pre @ ''.v'') + length digits) = i"
    using gopkgLoop_run [of digits "pre @ ''.v''" marker] digits nd path by (simp add: i_def)
  have cond: "\<not> (i \<le> 1 \<or> path ! (i - 1) \<noteq> CHR ''v'' \<or> path ! (i - 2) \<noteq> CHR ''.'')"
    using path by (simp add: i_def nth_append)
  have pm: "slice path (i - 2) (length path) = ''.v'' @ digits @ marker"
    and pr: "slice path 0 (i - 2) = pre"
    using path by (simp_all add: slice_def i_def)
  have c: "(length (''.v'' @ digits @ marker) \<le> 2 \<or>
         (''.v'' @ digits @ marker) ! 2 = CHR ''0'' \<and> ''.v'' @ digits @ marker \<noteq> ''.v0'') \<longleftrightarrow>
        (digits = [] \<and> marker = [] \<or>
         digits \<noteq> [] \<and> hd digits = CHR ''0'' \<and> \<not> (digits = ''0'' \<and> marker = []))"
    using marker by (cases digits) auto
  have "splitGopkgIn path =
     (if length (''.v'' @ digits @ marker) \<le> 2 \<or>
         (''.v'' @ digits @ marker) ! 2 = CHR ''0'' \<and> ''.v'' @ digits @ marker \<noteq> ''.v0''
      then (path, [], False) else (pre, ''.v'' @ digits @ marker, True))"
    unfolding splitGopkgIn_def Let_def i0 loop pm pr using g cond by simp
  then show ?thesis unfolding c by simp
qed

lemma splitGopkgIn_no_shape:
  assumes g: "HasPrefix path ''gopkg.in/''"
    and no: "\<not> (\<exists>pre digits marker. path = pre @ ''.v'' @ digits @ marker \<and>
                 (marker = [] \<or> marker = ''-unstable'') \<and> list_all isDigit digits)"
  shows "splitGopkgIn path = (path, [], False)"
proof -
  define marker where "marker = (if HasSuffix path ''-unstable'' then ''-unstable'' else [])"
  define stem where "stem = take (length path - length marker) path"
  have path: "path = stem @ marker"
    unfolding stem_def marker_def
    by (auto simp: HasSuffix_def) (metis append_take_drop_id)
  obtain pre run where stem: "stem = pre @ run" and run: "list_all isDigit run"
    and pre: "pre = [] \<or> \<not> isDigit (last pre)"
    using trailing_run [of stem isDigit] by blast
  define i where "i = length pre"
  have i0: "(if HasSuffix path ''-unstable'' then length path - length ''-unstable''
             else length path) = length pre + length run"
    using path stem by (auto simp: marker_def split: if_splits)
  have loop: "gopkgLoop path (length pre + length run) = i"
    using gopkgLoop_run [of run pre marker] run pre path stem by (simp add: i_def)
  have cond: "i \<le> 1 \<or> path ! (i - 1) \<noteq> CHR ''v'' \<or> path ! (i - 2) \<noteq> CHR ''.''"
  proof (rule ccontr)
    assume neg: "\<not> ?thesis"
    then have l: "2 \<le> length pre" by (auto simp: i_def)
    from l obtain q b where q: "pre = q @ [b]" by (cases pre rule: rev_cases) auto
    with l obtain p a where p: "q = p @ [a]" by (cases q rule: rev_cases) auto
    have "path ! (i - 1) = b" "path ! (i - 2) = a"
      using path stem q p by (simp_all add: i_def nth_append)
    with neg have "b = CHR ''v''" "a = CHR ''.''" by auto
    with path stem q p have "path = p @ ''.v'' @ run @ marker" by simp
    moreover have "marker = [] \<or> marker = ''-unstable''" by (simp add: marker_def)
    ultimately show False using no run by blast
  qed
  show ?thesis
    unfolding splitGopkgIn_def Let_def i0 loop using g cond by simp
qed


text \<open>
  C10. For every path, the prefix and the suffix that \<open>SplitPathVersion\<close> returns
  concatenate to the path, in the generic and in the gopkg.in dialect (also for
  \<open>splitGopkgIn\<close> called directly), whether \<open>ok\<close> is true or false; when \<open>ok\<close> is
  false the prefix is the whole path and the suffix is empty.
\<close>

theorem SplitPathVersion_concat:
  "split_prefix (SplitPathVersion path) @ split_pathMajor (SplitPathVersion path) = path \<and>
   split_prefix (splitGopkgIn path) @ split_pathMajor (splitGopkgIn path) = path \<and>
   (\<not> split_ok (SplitPathVersion path) \<longrightarrow> SplitPathVersion path = (path, [], False)) \<and>
   (\<not> split_ok (splitGopkgIn path) \<longrightarrow> splitGopkgIn path = (path, [], False))"
  using SplitPathVersion_cases [of path] splitGopkgIn_cases [of path]
  by (auto simp: split_prefix_def split_pathMajor_def split_ok_def slice_split)

theorem SplitPathVersion_concat_witness:
  "\<not> split_ok (SplitPathVersion ''example.com/pkg/v1'') \<and>
   SplitPathVersion ''example.com/pkg/v1'' = (''example.com/pkg/v1'', [], False) \<and>
   \<not> split_ok (splitGopkgIn ''gopkg.in/yaml.v01'') \<and>
   splitGopkgIn ''gopkg.in/yaml.v01'' = (''gopkg.in/yaml.v01'', [], False) \<and>
   split_prefix (SplitPathVersion ''gopkg.in/yaml.v2'') @
     split_pathMajor (SplitPathVersion ''gopkg.in/yaml.v2'') = ''gopkg.in/yaml.v2''"
proof -
  have a: "\<not> split_ok (SplitPathVersion ''example.com/pkg/v1'')" by code_simp
  have b: "\<not> split_ok (splitGopkgIn ''gopkg.in/yaml.v01'')" by code_simp
  show ?thesis
    using a b SplitPathVersion_concat [of "''example.com/pkg/v1''"]
      SplitPathVersion_concat [of "''gopkg.in/yaml.v01''"]
      SplitPathVersion_concat [of "''gopkg.in/yaml.v2''"]
    by blast
qed

text \<open>
  C4, as amended. For every path that does not start with \<open>gopkg.in/\<close>:
  \<open>SplitPathVersion\<close> returns \<open>ok = false\<close> exactly when the path ends in \<open>/v\<close>
  followed by a non-empty run of digits and dots, and the run contains a dot, or
  starts with \<open>0\<close>, or is \<open>1\<close>; a path ending in such a run that is none of these is
  split before the \<open>/v\<close>; every other path (also one that ends in a bare \<open>/v\<close>)
  comes back whole, with an empty suffix and \<open>ok = true\<close>.
\<close>

theorem SplitPathVersion_generic:
  assumes "\<not> HasPrefix path ''gopkg.in/''"
  shows "(\<not> split_ok (SplitPathVersion path) \<longleftrightarrow>
            (\<exists>pre run. path = pre @ ''/v'' @ run \<and> run \<noteq> [] \<and> list_all digdot run \<and>
               (CHR ''.'' \<in> set run \<or> hd run = CHR ''0'' \<or> run = ''1''))) \<and>
         (\<forall>pre run. path = pre @ ''/v'' @ run \<and> run \<noteq> [] \<and> list_all digdot run \<and>
               \<not> (CHR ''.'' \<in> set run \<or> hd run = CHR ''0'' \<or> run = ''1'') \<longrightarrow>
               SplitPathVersion path = (pre, ''/v'' @ run, True)) \<and>
         (\<not> (\<exists>pre run. path = pre @ ''/v'' @ run \<and> run \<noteq> [] \<and> list_all digdot run) \<longrightarrow>
            SplitPathVersion path = (path, [], True))"
proof (intro conjI)
  show "\<not> split_ok (SplitPathVersion path) \<longleftrightarrow>
            (\<exists>pre run. path = pre @ ''/v'' @ run \<and> run \<noteq> [] \<and> list_all digdot run \<and>
               (CHR ''.'' \<in> set run \<or> hd run = CHR ''0'' \<or> run = ''1''))"
  proof
    assume nok: "\<not> split_ok (SplitPathVersion path)"
    show "\<exists>pre run. path = pre @ ''/v'' @ run \<and> run \<noteq> [] \<and> list_all digdot run \<and>
               (CHR ''.'' \<in> set run \<or> hd run = CHR ''0'' \<or> run = ''1'')"
    proof (cases "\<exists>pre run. path = pre @ ''/v'' @ run \<and> run \<noteq> [] \<and> list_all digdot run")
      case True
      then obtain pre run where c: "path = pre @ ''/v'' @ run" "run \<noteq> []" "list_all digdot run"
        by blast
      have "CHR ''.'' \<in> set run \<or> hd run = CHR ''0'' \<or> run = ''1''"
      proof (rule ccontr)
        assume "\<not> ?thesis"
        then have "SplitPathVersion path = (pre, ''/v'' @ run, True)"
          using SplitPathVersion_candidate [OF assms c] by simp
        with nok show False by (simp add: split_ok_def)
      qed
      with c show ?thesis by blast
    next
      case False
      then have "SplitPathVersion path = (path, [], True)"
        by (rule SplitPathVersion_no_candidate [OF assms])
      with nok show ?thesis by (simp add: split_ok_def)
    qed
  next
    assume "\<exists>pre run. path = pre @ ''/v'' @ run \<and> run \<noteq> [] \<and> list_all digdot run \<and>
               (CHR ''.'' \<in> set run \<or> hd run = CHR ''0'' \<or> run = ''1'')"
    then obtain pre run where c: "path = pre @ ''/v'' @ run" "run \<noteq> []" "list_all digdot run"
      and bad: "CHR ''.'' \<in> set run \<or> hd run = CHR ''0'' \<or> run = ''1''"
      by blast
    from bad have "SplitPathVersion path = (path, [], False)"
      using SplitPathVersion_candidate [OF assms c] by simp
    then show "\<not> split_ok (SplitPathVersion path)" by (simp add: split_ok_def)
  qed
next
  show "\<forall>pre run. path = pre @ ''/v'' @ run \<and> run \<noteq> [] \<and> list_all digdot run \<and>
               \<not> (CHR ''.'' \<in> set run \<or> hd run = CHR ''0'' \<or> run = ''1'') \<longrightarrow>
               SplitPathVersion path = (pre, ''/v'' @ run, True)"
    using SplitPathVersion_candidate [OF assms] by simp
next
  show "\<not> (\<exists>pre run. path = pre @ ''/v'' @ run \<and> run \<noteq> [] \<and> list_all digdot run) \<longrightarrow>
            SplitPathVersion path = (path, [], True)"
    using SplitPathVersion_no_candidate [OF assms] by blast
qed

theorem SplitPathVersion_generic_witness:
  "\<not> HasPrefix ''example.com/pkg/v1.2'' ''gopkg.in/'' \<and>
   \<not> split_ok (SplitPathVersion ''example.com/pkg/v1.2'') \<and>
   (\<exists>pre run. ''example.com/pkg/v1.2'' = pre @ ''/v'' @ run \<and> run \<noteq> [] \<and>
      list_all digdot run \<and> (CHR ''.'' \<in> set run \<or> hd run = CHR ''0'' \<or> run = ''1'')) \<and>
   \<not> HasPrefix ''example.com/pkg/v2'' ''gopkg.in/'' \<and>
   ''example.com/pkg/v2'' = ''example.com/pkg'' @ ''/v'' @ ''2'' \<and>
   list_all digdot ''2'' \<and>
   SplitPathVersion ''example.com/pkg/v2'' = (''example.com/pkg'', ''/v'' @ ''2'', True) \<and>
   \<not> HasPrefix ''example.com/pkg'' ''gopkg.in/'' \<and>
   \<not> (\<exists>pre run. ''example.com/pkg'' = pre @ ''/v'' @ run \<and> run \<noteq> [] \<and>
        list_all digdot run) \<and>
   SplitPathVersion ''example.com/pkg'' = (''example.com/pkg'', [], True)"
proof -
  have a: "\<not> HasPrefix ''example.com/pkg/v1.2'' ''gopkg.in/''" by code_simp
  have b: "\<not> split_ok (SplitPathVersion ''example.com/pkg/v1.2'')" by code_simp
  have c: "\<not> HasPrefix ''example.com/pkg/v2'' ''gopkg.in/''" by code_simp
  have d: "''example.com/pkg/v2'' = ''example.com/pkg'' @ ''/v'' @ ''2'' \<and> ''2'' \<noteq> [] \<and>
           list_all digdot ''2'' \<and>
           \<not> (CHR ''.'' \<in> set ''2'' \<or> hd ''2'' = CHR ''0'' \<or> ''2'' = ''1'')"
    by code_simp
  have e: "\<not> HasPrefix ''example.com/pkg'' ''gopkg.in/''" by code_simp
  have f: "\<not> (\<exists>pre run. ''example.com/pkg'' = pre @ ''/v'' @ run \<and> run \<noteq> [] \<and>
        list_all digdot run)"
  proof
    assume "\<exists>pre run. ''example.com/pkg'' = pre @ ''/v'' @ run \<and> run \<noteq> [] \<and>
        list_all digdot run"
    then obtain pre run where p: "''example.com/pkg'' = pre @ ''/v'' @ run" and ne: "run \<noteq> []"
      and dd: "list_all digdot run" by blast
    from ne have l: "last (pre @ ''/v'' @ run) = last run" by simp
    from ne dd have "digdot (last run)" by (simp add: list_all_iff)
    with l p have "digdot (last ''example.com/pkg'')" by simp
    moreover have "\<not> digdot (last ''example.com/pkg'')" by code_simp
    ultimately show False by blast
  qed
  from b SplitPathVersion_generic [OF a]
  have g: "\<exists>pre run. ''example.com/pkg/v1.2'' = pre @ ''/v'' @ run \<and> run \<noteq> [] \<and>
      list_all digdot run \<and> (CHR ''.'' \<in> set run \<or> hd run = CHR ''0'' \<or> run = ''1'')"
    by blast
  from d SplitPathVersion_generic [OF c]
  have h: "SplitPathVersion ''example.com/pkg/v2'' = (''example.com/pkg'', ''/v'' @ ''2'', True)"
    by blast
  from f SplitPathVersion_generic [OF e]
  have i: "SplitPathVersion ''example.com/pkg'' = (''example.com/pkg'', [], True)"
    by blast
  from a b c d e f g h i show ?thesis by blast
qed

text \<open>
  C4 as stated also makes "the suffix is just \<open>/v\<close> with nothing after" a case of
  \<open>ok = false\<close>. The code returns success before it looks at the suffix when the scan
  moved over no character (\<open>i == len(path)\<close>): a path ending in a bare \<open>/v\<close> is
  accepted, as a path without a major-version suffix.
\<close>

theorem SplitPathVersion_bare_v_counterexample:
  "\<not> HasPrefix ''example.com/pkg/v'' ''gopkg.in/'' \<and>
   HasSuffix ''example.com/pkg/v'' ''/v'' \<and>
   SplitPathVersion ''example.com/pkg/v'' = (''example.com/pkg/v'', [], True)"
  by code_simp

text \<open>
  What \<open>SplitPathVersion\<close> does on every path that starts with \<open>gopkg.in/\<close>: it
  accepts exactly the paths of the form prefix, \<open>.v\<close>, digits, optional
  \<open>-unstable\<close>, where the digits or the marker are present and a leading \<open>0\<close>
  occurs only in the suffix \<open>.v0\<close>.
\<close>

lemma SplitPathVersion_gopkg_exact:
  assumes "HasPrefix path ''gopkg.in/''"
  shows "(split_ok (SplitPathVersion path) \<longleftrightarrow>
            (\<exists>pre digits marker.
               path = pre @ ''.v'' @ digits @ marker \<and>
               (marker = [] \<or> marker = ''-unstable'') \<and> list_all isDigit digits \<and>
               (digits \<noteq> [] \<or> marker = ''-unstable'') \<and>
               (digits \<noteq> [] \<and> hd digits = CHR ''0'' \<longrightarrow> digits = ''0'' \<and> marker = []))) \<and>
         (\<forall>pre digits marker.
               path = pre @ ''.v'' @ digits @ marker \<and>
               (marker = [] \<or> marker = ''-unstable'') \<and> list_all isDigit digits \<and>
               (digits \<noteq> [] \<or> marker = ''-unstable'') \<and>
               (digits \<noteq> [] \<and> hd digits = CHR ''0'' \<longrightarrow> digits = ''0'' \<and> marker = []) \<longrightarrow>
               SplitPathVersion path = (pre, ''.v'' @ digits @ marker, True)) \<and>
         (\<not> split_ok (SplitPathVersion path) \<longrightarrow> SplitPathVersion path = (path, [], False))"
proof -
  from assms have eq: "SplitPathVersion path = splitGopkgIn path"
    by (simp add: SplitPathVersion_def)
  have good: "SplitPathVersion path = (pre, ''.v'' @ digits @ marker, True)"
    if t: "path = pre @ ''.v'' @ digits @ marker \<and>
      (marker = [] \<or> marker = ''-unstable'') \<and>
      list_all isDigit digits \<and> (digits \<noteq> [] \<or> marker = ''-unstable'') \<and>
      (digits \<noteq> [] \<and> hd digits = CHR ''0'' \<longrightarrow> digits = ''0'' \<and> marker = [])"
    for pre digits marker
  proof -
    from t have d: "path = pre @ ''.v'' @ digits @ marker"
      "marker = [] \<or> marker = ''-unstable''" "list_all isDigit digits"
      by blast+
    from t have "\<not> (digits = [] \<and> marker = [] \<or>
         digits \<noteq> [] \<and> hd digits = CHR ''0'' \<and> \<not> (digits = ''0'' \<and> marker = []))"
      by fastforce
    then show ?thesis
      unfolding eq splitGopkgIn_shape [OF assms d] by (rule if_not_P)
  qed
  have only: "\<exists>pre digits marker.
               path = pre @ ''.v'' @ digits @ marker \<and>
               (marker = [] \<or> marker = ''-unstable'') \<and> list_all isDigit digits \<and>
               (digits \<noteq> [] \<or> marker = ''-unstable'') \<and>
               (digits \<noteq> [] \<and> hd digits = CHR ''0'' \<longrightarrow> digits = ''0'' \<and> marker = [])"
    if ok: "split_ok (SplitPathVersion path)"
  proof -
    have "\<exists>pre digits marker. path = pre @ ''.v'' @ digits @ marker \<and>
          (marker = [] \<or> marker = ''-unstable'') \<and> list_all isDigit digits"
    proof (rule ccontr)
      assume "\<not> ?thesis"
      then have "splitGopkgIn path = (path, [], False)"
        by (rule splitGopkgIn_no_shape [OF assms])
      with ok eq show False by (simp add: split_ok_def)
    qed
    then obtain pre digits marker where d: "path = pre @ ''.v'' @ digits @ marker"
      "marker = [] \<or> marker = ''-unstable''" "list_all isDigit digits"
      by blast
    have c: "\<not> (digits = [] \<and> marker = [] \<or>
         digits \<noteq> [] \<and> hd digits = CHR ''0'' \<and> \<not> (digits = ''0'' \<and> marker = []))"
    proof
      assume "digits = [] \<and> marker = [] \<or>
         digits \<noteq> [] \<and> hd digits = CHR ''0'' \<and> \<not> (digits = ''0'' \<and> marker = [])"
      then have "splitGopkgIn path = (path, [], False)"
        unfolding splitGopkgIn_shape [OF assms d] by (rule if_P)
      with ok eq show False by (simp add: split_ok_def)
    qed
    from c d(2) have "digits \<noteq> [] \<or> marker = ''-unstable''" by blast
    moreover from c have "digits \<noteq> [] \<and> hd digits = CHR ''0'' \<longrightarrow> digits = ''0'' \<and> marker = []"
      by blast
    ultimately show ?thesis using d by blast
  qed
  have bad: "SplitPathVersion path = (path, [], False)" if "\<not> split_ok (SplitPathVersion path)"
    using that SplitPathVersion_cases [of path] by (auto simp: split_ok_def)
  show ?thesis
  proof (intro conjI allI impI iffI)
    assume "split_ok (SplitPathVersion path)"
    then show "\<exists>pre digits marker.
               path = pre @ ''.v'' @ digits @ marker \<and>
               (marker = [] \<or> marker = ''-unstable'') \<and> list_all isDigit digits \<and>
               (digits \<noteq> [] \<or> marker = ''-unstable'') \<and>
               (digits \<noteq> [] \<and> hd digits = CHR ''0'' \<longrightarrow> digits = ''0'' \<and> marker = [])"
      by (rule only)
  next
    assume "\<exists>pre digits marker.
               path = pre @ ''.v'' @ digits @ marker \<and>
               (marker = [] \<or> marker = ''-unstable'') \<and> list_all isDigit digits \<and>
               (digits \<noteq> [] \<or> marker = ''-unstable'') \<and>
               (digits \<noteq> [] \<and> hd digits = CHR ''0'' \<longrightarrow> digits = ''0'' \<and> marker = [])"
    then obtain pre digits marker where "path = pre @ ''.v'' @ digits @ marker \<and>
      (marker = [] \<or> marker = ''-unstable'') \<and>
      list_all isDigit digits \<and> (digits \<noteq> [] \<or> marker = ''-unstable'') \<and>
      (digits \<noteq> [] \<and> hd digits = CHR ''0'' \<longrightarrow> digits = ''0'' \<and> marker = [])"
      by blast
    then have "SplitPathVersion path = (pre, ''.v'' @ digits @ marker, True)" by (rule good)
    then show "split_ok (SplitPathVersion path)" by (simp add: split_ok_def)
  next
    fix pre digits marker
    assume "path = pre @ ''.v'' @ digits @ marker \<and>
      (marker = [] \<or> marker = ''-unstable'') \<and>
      list_all isDigit digits \<and> (digits \<noteq> [] \<or> marker = ''-unstable'') \<and>
      (digits \<noteq> [] \<and> hd digits = CHR ''0'' \<longrightarrow> digits = ''0'' \<and> marker = [])"
    then show "SplitPathVersion path = (pre, ''.v'' @ digits @ marker, True)" by (rule good)
  next
    assume "\<not> split_ok (SplitPathVersion path)"
    then show "SplitPathVersion path = (path, [], False)" by (rule bad)
  qed
qed

text \<open>
  C5. For a path that starts with \<open>gopkg.in/\<close> the claim requires a run of digits
  between \<open>.v\<close> and the optional marker \<open>-unstable\<close>, and so does the comment of
  \<open>splitGopkgIn\<close> (all gopkg.in paths must end in vN for some N). The only test of
  the code for a missing number is \<open>len(pathMajor) <= 2\<close>: it rejects
  \<open>gopkg.in/yaml.v\<close>, but with the marker the suffix \<open>.v-unstable\<close> is longer than
  2 characters, and \<open>gopkg.in/yaml.v-unstable\<close> is split with \<open>ok = true\<close> and
  passes \<open>CheckPath\<close>. With a number the code does what the claim says:
  \<open>.v2-unstable\<close> is accepted and \<open>.v0-unstable\<close> is rejected.
\<close>

theorem SplitPathVersion_gopkg_no_number:
  "HasPrefix ''gopkg.in/yaml.v-unstable'' ''gopkg.in/'' \<and>
   SplitPathVersion ''gopkg.in/yaml.v-unstable'' = (''gopkg.in/yaml'', ''.v-unstable'', True) \<and>
   CheckPath IsLetter_Latin1 ''gopkg.in/yaml.v-unstable'' = None \<and>
   SplitPathVersion ''gopkg.in/yaml.v'' = (''gopkg.in/yaml.v'', [], False) \<and>
   SplitPathVersion ''gopkg.in/yaml.v2-unstable'' = (''gopkg.in/yaml'', ''.v2-unstable'', True) \<and>
   SplitPathVersion ''gopkg.in/yaml.v0-unstable'' = (''gopkg.in/yaml.v0-unstable'', [], False)"
  by code_simp

theorem SplitPathVersion_gopkg_no_number_witness:
  "split_ok (SplitPathVersion ''gopkg.in/yaml.v-unstable'') \<and>
   split_pathMajor (SplitPathVersion ''gopkg.in/yaml.v-unstable'') = ''.v-unstable'' \<and>
   \<not> split_ok (SplitPathVersion ''gopkg.in/yaml.v'')"
  using SplitPathVersion_gopkg_no_number
  by (simp add: split_ok_def split_pathMajor_def)

section \<open>Properties of bytes and runes\<close>

lemma byte_range: "0 \<le> byte c \<and> byte c < 256"
proof -
  have "byte c mod 256 = byte c" by (simp add: byte_def)
  moreover have "0 \<le> byte c mod 256" "byte c mod 256 < 256" by simp_all
  ultimately show ?thesis by simp
qed

lemma byte_inj: "byte c = byte d \<longleftrightarrow> c = d"
  by (simp add: byte_def)

lemma byte_nat: "byte c = int (of_char c)"
  by (simp add: byte_def of_nat_of_char)

lemma byte_le: "byte c \<le> byte d \<longleftrightarrow> c \<le> d"
  by (simp add: byte_nat less_eq_char_def)

lemma char_of_byte: "char_of (byte c) = c"
  by (simp add: byte_def)

lemma byte_char_of: "0 \<le> n \<Longrightarrow> n < 256 \<Longrightarrow> byte (char_of n) = n"
  by (simp add: byte_def)

lemma Decode_ascii:
  "s \<noteq> [] \<Longrightarrow> byte (hd s) < 128 \<Longrightarrow> DecodeRuneInString s = (byte (hd s), 1)"
  by (cases s) (simp_all add: DecodeRuneInString_def RuneSelf_def Let_def)

lemma Decode_nonascii:
  assumes "s \<noteq> []" "128 \<le> byte (hd s)"
  shows "128 \<le> fst (DecodeRuneInString s)"
proof -
  define s0 where "s0 = byte (s ! 0)"
  define s1 where "s1 = byte (s ! 1)"
  have s0: "128 \<le> s0" "s0 < 256"
    using assms byte_range [of "hd s"] by (cases s; simp add: s0_def)+
  have s1: "0 \<le> s1" by (simp add: s1_def byte_range)
  have m: "0 \<le> byte (s ! 2) mod 64" "0 \<le> byte (s ! 3) mod 64" "0 \<le> s1 mod 64" by simp_all
  have two: "194 \<le> s0 \<Longrightarrow> s0 < 224 \<Longrightarrow> 128 \<le> (s0 mod 32) * 64 + s1 mod 64"
  proof -
    assume "194 \<le> s0" "s0 < 224"
    then have "2 \<le> s0 mod 32" by presburger
    with m show ?thesis by linarith
  qed
  have three: "224 \<le> s0 \<Longrightarrow> s0 < 240 \<Longrightarrow> fst (acceptRange s0) \<le> s1 \<Longrightarrow> s1 \<le> snd (acceptRange s0)
    \<Longrightarrow> 128 \<le> (s0 mod 16) * 4096 + (s1 mod 64) * 64 + byte (s ! 2) mod 64"
  proof -
    assume a: "224 \<le> s0" "s0 < 240" "fst (acceptRange s0) \<le> s1" "s1 \<le> snd (acceptRange s0)"
    show ?thesis
    proof (cases "s0 = 224")
      case True
      with a have "160 \<le> s1" "s1 \<le> 191" by (simp_all add: acceptRange_def)
      then have "32 \<le> s1 mod 64" by presburger
      moreover have "0 \<le> s0 mod 16" by simp
      ultimately show ?thesis using m by linarith
    next
      case False
      with a have "1 \<le> s0 mod 16" by presburger
      moreover have "0 \<le> s1 mod 64" by simp
      ultimately show ?thesis using m by linarith
    qed
  qed
  have four: "240 \<le> s0 \<Longrightarrow> s0 \<le> 244 \<Longrightarrow> fst (acceptRange s0) \<le> s1 \<Longrightarrow> s1 \<le> snd (acceptRange s0)
    \<Longrightarrow> 128 \<le> (s0 mod 8) * 262144 + (s1 mod 64) * 4096 + (byte (s ! 2) mod 64) * 64
         + byte (s ! 3) mod 64"
  proof -
    assume a: "240 \<le> s0" "s0 \<le> 244" "fst (acceptRange s0) \<le> s1" "s1 \<le> snd (acceptRange s0)"
    show ?thesis
    proof (cases "s0 = 240")
      case True
      with a have "144 \<le> s1" "s1 \<le> 191" by (simp_all add: acceptRange_def)
      then have "16 \<le> s1 mod 64" by presburger
      moreover have "0 \<le> s0 mod 8" by simp
      ultimately show ?thesis using m by linarith
    next
      case False
      with a have "1 \<le> s0 mod 8" by presburger
      moreover have "0 \<le> s1 mod 64" by simp
      ultimately show ?thesis using m by linarith
    qed
  qed
  show ?thesis
    using assms s0 two three four
    unfolding DecodeRuneInString_def Let_def s0_def [symmetric] s1_def [symmetric]
    by (auto simp: RuneSelf_def RuneError_def seqLen_def split: if_splits)
qed

lemma rangeString_ascii:
  "list_all ascii s \<Longrightarrow> rangeString s = map (\<lambda>c. (byte c, 1)) s"
proof (induction s)
  case Nil
  then show ?case by (simp add: rangeString.simps)
next
  case (Cons c s)
  then have "DecodeRuneInString (c # s) = (byte c, 1)"
    using Decode_ascii [of "c # s"] by (simp add: ascii_def)
  with Cons show ?case by (subst rangeString.simps) simp
qed

lemma runes_ascii: "list_all ascii s \<Longrightarrow> runes s = map byte s"
  by (simp add: runes_def rangeString_ascii comp_def)

lemma ValidString_ascii: "list_all ascii s \<Longrightarrow> ValidString s"
  by (auto simp: ValidString_def rangeString_ascii list_all_iff RuneError_def ascii_def)

lemma runes_nonascii: "\<not> list_all ascii s \<Longrightarrow> \<exists>r \<in> set (runes s). 128 \<le> r"
proof (induction s)
  case Nil
  then show ?case by simp
next
  case (Cons c s)
  show ?case
  proof (cases "ascii c")
    case True
    then have d: "DecodeRuneInString (c # s) = (byte c, 1)"
      using Decode_ascii [of "c # s"] by (simp add: ascii_def)
    from True Cons.prems have "\<not> list_all ascii s" by simp
    then have "\<exists>r \<in> set (runes s). 128 \<le> r" by (rule Cons.IH)
    moreover have "runes (c # s) = byte c # runes s"
      unfolding runes_def by (subst rangeString.simps) (simp add: d)
    ultimately show ?thesis by simp
  next
    case False
    then have "128 \<le> fst (DecodeRuneInString (c # s))"
      using Decode_nonascii [of "c # s"] by (simp add: ascii_def)
    moreover have "fst (DecodeRuneInString (c # s)) \<in> set (runes (c # s))"
      unfolding runes_def by (subst rangeString.simps) simp
    ultimately show ?thesis by blast
  qed
qed


lemma pathOK_byte: "pathOK (byte c) \<longleftrightarrow> import_char c"
proof -
  have b: "byte CHR ''z'' = 122" "byte CHR ''Z'' = 90" "byte CHR ''9'' = 57"
    "byte CHR ''+'' = 43" "byte CHR ''-'' = 45" "byte CHR ''.'' = 46" "byte CHR ''_'' = 95"
    "byte CHR ''~'' = 126"
    by (simp_all add: byte_def)
  have "import_char c \<Longrightarrow> byte c < 128"
    unfolding import_char_def isLower_def isUpper_def isDigit_def byte_le [symmetric] using b
    by (auto simp: byte_inj [symmetric] simp del: byte_inj)
  then show ?thesis
    unfolding pathOK_def import_char_def isLower_def isUpper_def isDigit_def RuneSelf_def
      byte_le byte_inj
    by auto
qed

lemma import_char_ascii: "import_char c \<Longrightarrow> ascii c"
  using pathOK_byte [of c] by (auto simp: pathOK_def ascii_def RuneSelf_def split: if_splits)

lemma asciiUpper_byte:
  "byte (asciiUpper c) = (if 97 \<le> byte c \<and> byte c \<le> 122 then byte c - 32 else byte c)"
proof -
  have b: "byte CHR ''a'' = 97" "byte CHR ''z'' = 122" by (simp_all add: byte_def)
  show ?thesis
    unfolding asciiUpper_def byte_le [symmetric] b
    using byte_range [of c] by (simp add: byte_char_of)
qed

lemma asciiLower_byte:
  "byte (asciiLower c) = (if 65 \<le> byte c \<and> byte c \<le> 90 then byte c + 32 else byte c)"
proof -
  have b: "byte CHR ''A'' = 65" "byte CHR ''Z'' = 90" by (simp_all add: byte_def)
  show ?thesis
    unfolding asciiLower_def isUpper_def byte_le [symmetric] b
    using byte_range [of c] by (simp add: byte_char_of)
qed

lemma fold_char: "asciiUpper c = asciiUpper d \<longleftrightarrow> asciiLower c = asciiLower d"
proof -
  have "byte (asciiUpper c) = byte (asciiUpper d) \<longleftrightarrow> byte (asciiLower c) = byte (asciiLower d)"
    unfolding asciiUpper_byte asciiLower_byte by auto
  then show ?thesis by (simp only: byte_inj)
qed

lemma EqualFold_caseless: "EqualFold s t \<longleftrightarrow> caseless_eq s t"
proof -
  have "map asciiUpper s = map asciiUpper t \<longleftrightarrow> map asciiLower s = map asciiLower t"
  proof (induction s arbitrary: t)
    case Nil
    then show ?case by simp
  next
    case (Cons c s)
    then show ?case by (cases t) (simp_all add: fold_char)
  qed
  then show ?thesis by (simp add: EqualFold_def caseless_eq_def)
qed

lemma badWindowsNames_reserved: "badWindowsNames = reserved_names"
  by (simp add: badWindowsNames_def reserved_names_def)

lemma HasPrefix_single: "HasPrefix (c # s) [d] \<longleftrightarrow> c = d"
  by (simp add: HasPrefix_def)

lemma Index_single:
  "Index s [c] = (if c \<in> set s then Some (length (takeWhile (\<lambda>x. x \<noteq> c) s)) else None)"
  by (induction s) (auto simp: HasPrefix_single)

lemma short_takeWhile:
  "(case Index e ''.'' of Some i \<Rightarrow> slice e 0 i | None \<Rightarrow> e) = takeWhile (\<lambda>c. c \<noteq> CHR ''.'') e"
proof (cases "CHR ''.'' \<in> set e")
  case True
  then show ?thesis
    using takeWhile_eq_take [of "\<lambda>c. c \<noteq> CHR ''.''" e]
    by (simp add: Index_single slice_def)
next
  case False
  then have tw: "takeWhile (\<lambda>c. c \<noteq> CHR ''.'') e = e"
    by (induction e) auto
  from False have i: "Index e ''.'' = None" by (simp add: Index_single)
  show ?thesis unfolding i tw by simp
qed

lemma find_None: "find P xs = None \<longleftrightarrow> \<not> list_ex P xs"
  by (auto simp: find_None_iff list_ex_iff)

lemma Count_all: "Count e c = length e \<longleftrightarrow> list_all (\<lambda>x. x = c) e"
proof (induction e)
  case Nil
  then show ?case by (simp add: Count_def)
next
  case (Cons x e)
  have le: "length (filter (\<lambda>x. x = c) e) \<le> length e" by (rule length_filter_le)
  show ?case
  proof (cases "x = c")
    case True
    with Cons show ?thesis by (simp add: Count_def)
  next
    case False
    from le have "length (filter (\<lambda>x. x = c) e) \<noteq> Suc (length e)"
      by (metis Suc_n_not_le_n)
    with False show ?thesis by (simp add: Count_def)
  qed
qed

lemma checkElem_nonascii: "\<not> list_all ascii e \<Longrightarrow> checkElem isLetter e False \<noteq> None"
proof -
  assume "\<not> list_all ascii e"
  then obtain r where r: "r \<in> set (runes e)" "128 \<le> r" using runes_nonascii by blast
  then have "\<not> pathOK r" by (simp add: pathOK_def RuneSelf_def)
  with r have "list_ex (\<lambda>r. \<not> pathOK r) (runes e)"
    unfolding list_ex_iff by blast
  then have "find (\<lambda>r. \<not> pathOK r) (runes e) \<noteq> None" by (simp add: find_None)
  then show ?thesis
    by (auto simp: checkElem_def Let_def split: option.splits)
qed

lemma checkElem_import: "checkElem isLetter e False = None \<longleftrightarrow> element_ok e"
proof (cases "list_all ascii e")
  case False
  then have "\<not> list_all import_char e"
    using import_char_ascii by (auto simp: list_all_iff)
  with False show ?thesis
    using checkElem_nonascii [of e isLetter] by (simp add: element_ok_def)
next
  case True
  have f: "find (\<lambda>r. \<not> pathOK r) (runes e) = None \<longleftrightarrow> list_all import_char e"
    by (simp add: find_None runes_ascii [OF True] list_ex_iff list_all_iff pathOK_byte)
  have g: "find (\<lambda>bad. EqualFold bad (takeWhile (\<lambda>c. c \<noteq> CHR ''.'') e)) badWindowsNames = None \<longleftrightarrow>
           \<not> list_ex (\<lambda>name. caseless_eq name (takeWhile (\<lambda>c. c \<noteq> CHR ''.'') e)) reserved_names"
    by (simp add: find_None badWindowsNames_reserved EqualFold_caseless)
  have h: "e \<noteq> [] \<Longrightarrow> e ! 0 = hd e \<and> e ! (length e - 1) = last e"
    by (simp add: hd_conv_nth last_conv_nth)
  have "checkElem isLetter e False = None \<longleftrightarrow>
        e \<noteq> [] \<and> \<not> list_all (\<lambda>c. c = CHR ''.'') e \<and> e ! 0 \<noteq> CHR ''.'' \<and>
        e ! (length e - 1) \<noteq> CHR ''.'' \<and> find (\<lambda>r. \<not> pathOK r) (runes e) = None \<and>
        find (\<lambda>bad. EqualFold bad (takeWhile (\<lambda>c. c \<noteq> CHR ''.'') e)) badWindowsNames = None"
    unfolding checkElem_def Let_def short_takeWhile Count_all
    by (auto split: option.splits)
  also have "\<dots> \<longleftrightarrow> element_ok e"
    unfolding f g element_ok_def using h by auto
  finally show ?thesis .
qed


lemma splitOn_no_sep: "sep \<notin> set a \<Longrightarrow> splitOn sep a = [a]"
  by (induction a) auto

lemma splitOn_append: "sep \<notin> set a \<Longrightarrow> splitOn sep (a @ sep # b) = a # splitOn sep b"
  by (induction a) auto

lemma splitOn_all:
  "list_all (list_all P) (splitOn sep s) \<Longrightarrow> P sep \<Longrightarrow> list_all P s"
proof (induction s)
  case Nil
  then show ?case by simp
next
  case (Cons c s)
  then show ?case by (cases "splitOn sep s") (auto split: if_splits)
qed

lemma checkPathRest_end:
  "length path \<le> i \<Longrightarrow>
   checkPathRest isLetter path fileName i elemStart =
     checkElem isLetter (drop elemStart path) fileName"
  unfolding checkPathRest_def by (subst checkPathLoop.simps) (simp add: slice_def)

lemma checkPathRest_slash:
  "i < length path \<Longrightarrow> fst (DecodeRuneInString (drop i path)) = byte CHR ''/'' \<Longrightarrow>
   checkPathRest isLetter path fileName i elemStart =
     (case checkElem isLetter (slice path elemStart i) fileName of
        Some err \<Rightarrow> Some err
      | None \<Rightarrow> checkPathRest isLetter path fileName
                  (i + snd (DecodeRuneInString (drop i path))) (i + 1))"
  unfolding checkPathRest_def by (subst checkPathLoop.simps) (simp split: option.splits)

lemma checkPathRest_other:
  "i < length path \<Longrightarrow> fst (DecodeRuneInString (drop i path)) \<noteq> byte CHR ''/'' \<Longrightarrow>
   checkPathRest isLetter path fileName i elemStart =
     checkPathRest isLetter path fileName
       (i + snd (DecodeRuneInString (drop i path))) elemStart"
  unfolding checkPathRest_def by (subst checkPathLoop.simps) simp

lemma Decode_at_ascii:
  "i < length path \<Longrightarrow> ascii (path ! i) \<Longrightarrow>
   DecodeRuneInString (drop i path) = (byte (path ! i), 1)"
  using Decode_ascii [of "drop i path"] by (simp add: hd_drop_conv_nth ascii_def)

lemma Decode_at_slash:
  assumes "i < length path" "fst (DecodeRuneInString (drop i path)) = byte CHR ''/''"
  shows "path ! i = CHR ''/'' \<and> snd (DecodeRuneInString (drop i path)) = 1"
proof -
  have s: "byte CHR ''/'' = 47" by (simp add: byte_def)
  have "ascii (path ! i)"
  proof (rule ccontr)
    assume "\<not> ascii (path ! i)"
    then have "128 \<le> fst (DecodeRuneInString (drop i path))"
      using Decode_nonascii [of "drop i path"] assms(1)
      by (simp add: hd_drop_conv_nth ascii_def)
    with assms(2) s show False by simp
  qed
  then have "DecodeRuneInString (drop i path) = (byte (path ! i), 1)"
    using assms(1) by (rule Decode_at_ascii [rotated])
  with assms(2) show ?thesis by (simp add: byte_inj)
qed

lemma drop_slice: "elemStart \<le> i \<Longrightarrow> i \<le> length path \<Longrightarrow>
   drop elemStart path = slice path elemStart i @ drop i path"
  by (metis add_diff_cancel_left' append_take_drop_id drop_drop le_Suc_ex slice_def add.commute)

lemma checkPathRest_ascii:
  "list_all ascii path \<Longrightarrow> elemStart \<le> i \<Longrightarrow> i \<le> length path \<Longrightarrow>
   CHR ''/'' \<notin> set (slice path elemStart i) \<Longrightarrow>
   checkPathRest isLetter path fileName i elemStart = None \<longleftrightarrow>
     list_all (\<lambda>e. checkElem isLetter e fileName = None) (splitOn CHR ''/'' (drop elemStart path))"
proof (induction isLetter path fileName i elemStart rule: checkPathLoop.induct)
  case (1 isLetter path fileName i elemStart)
  show ?case
  proof (cases "length path \<le> i")
    case True
    with "1.prems" have "drop elemStart path = slice path elemStart i"
      by (simp add: slice_def)
    with "1.prems" have "splitOn CHR ''/'' (drop elemStart path) = [drop elemStart path]"
      by (simp add: splitOn_no_sep)
    with True show ?thesis by (simp add: checkPathRest_end)
  next
    case False
    then have lt: "i < length path" by simp
    with "1.prems" have a: "ascii (path ! i)" by (simp add: list_all_length)
    have d: "DecodeRuneInString (drop i path) = (byte (path ! i), 1)"
      by (rule Decode_at_ascii [OF lt a])
    have dr: "drop elemStart path = slice path elemStart i @ path ! i # drop (Suc i) path"
      using drop_slice [of elemStart i path] "1.prems" lt by (simp add: Cons_nth_drop_Suc)
    show ?thesis
    proof (cases "path ! i = CHR ''/''")
      case True
      then have sl: "fst (DecodeRuneInString (drop i path)) = byte CHR ''/''" by (simp add: d)
      have sp: "splitOn CHR ''/'' (drop elemStart path) =
                slice path elemStart i # splitOn CHR ''/'' (drop (Suc i) path)"
        unfolding dr True using "1.prems" by (simp add: splitOn_append)
      show ?thesis
      proof (cases "checkElem isLetter (slice path elemStart i) fileName")
        case None
        have "checkPathRest isLetter path fileName (i + 1) (i + 1) = None \<longleftrightarrow>
              list_all (\<lambda>e. checkElem isLetter e fileName = None)
                (splitOn CHR ''/'' (drop (i + 1) path))"
          using "1.IH"(1) [OF False sl None] "1.prems" lt by (simp add: d slice_def)
        then show ?thesis
          by (simp add: checkPathRest_slash [OF lt sl] None sp d)
      next
        case (Some err)
        then show ?thesis
          by (simp add: checkPathRest_slash [OF lt sl] sp)
      qed
    next
      case False
      then have sl: "fst (DecodeRuneInString (drop i path)) \<noteq> byte CHR ''/''"
        by (simp add: d byte_inj)
      have "slice path elemStart (Suc i) = slice path elemStart i @ [path ! i]"
        using "1.prems" lt
        by (simp add: slice_def Suc_diff_le take_Suc_conv_app_nth)
      with False "1.prems" have "CHR ''/'' \<notin> set (slice path elemStart (i + 1))" by simp
      then have "checkPathRest isLetter path fileName (i + 1) elemStart = None \<longleftrightarrow>
              list_all (\<lambda>e. checkElem isLetter e fileName = None)
                (splitOn CHR ''/'' (drop elemStart path))"
        using "1.IH"(2) [OF \<open>\<not> length path \<le> i\<close> sl] "1.prems" lt by (simp add: d)
      then show ?thesis
        by (simp add: checkPathRest_other [OF lt sl] d)
    qed
  qed
qed

lemma checkPathRest_nonascii:
  "\<not> list_all ascii (drop elemStart path) \<Longrightarrow> elemStart \<le> i \<Longrightarrow>
   checkPathRest isLetter path False i elemStart \<noteq> None"
proof (induction isLetter path "False" i elemStart rule: checkPathLoop.induct)
  case (1 isLetter path i elemStart)
  show ?case
  proof (cases "length path \<le> i")
    case True
    with "1.prems" show ?thesis
      by (simp add: checkPathRest_end checkElem_nonascii)
  next
    case False
    then have lt: "i < length path" by simp
    show ?thesis
    proof (cases "fst (DecodeRuneInString (drop i path)) = byte CHR ''/''")
      case True
      note sl = Decode_at_slash [OF lt True]
      show ?thesis
      proof (cases "checkElem isLetter (slice path elemStart i) False")
        case None
        then have "list_all ascii (slice path elemStart i)"
          using checkElem_nonascii by blast
        moreover have "drop elemStart path =
            slice path elemStart i @ path ! i # drop (Suc i) path"
          using drop_slice [of elemStart i path] "1.prems" lt by (simp add: Cons_nth_drop_Suc)
        moreover have "ascii (path ! i)" using sl by (simp add: ascii_def byte_def)
        ultimately have "\<not> list_all ascii (drop (i + 1) path)"
          using "1.prems" by auto
        then have "checkPathRest isLetter path False (i + 1) (i + 1) \<noteq> None"
          using "1.hyps"(1) [OF False True None] sl by simp
        then show ?thesis
          by (simp add: checkPathRest_slash [OF lt True] None sl)
      next
        case (Some err)
        then show ?thesis by (simp add: checkPathRest_slash [OF lt True])
      qed
    next
      case ns: False
      have "checkPathRest isLetter path False
              (i + snd (DecodeRuneInString (drop i path))) elemStart \<noteq> None"
        using "1.hyps"(2) [OF False ns] "1.prems" by simp
      then show ?thesis by (simp add: checkPathRest_other [OF lt ns])
    qed
  qed
qed


lemma HasPrefix_iff: "HasPrefix s pre \<longleftrightarrow> (\<exists>b. s = pre @ b)"
proof
  assume "HasPrefix s pre"
  then have "s = pre @ drop (length pre) s"
    by (metis HasPrefix_def append_take_drop_id)
  then show "\<exists>b. s = pre @ b" ..
next
  assume "\<exists>b. s = pre @ b"
  then show "HasPrefix s pre" by (auto simp: HasPrefix_def)
qed

lemma Index_None_iff: "Index s sub \<noteq> None \<longleftrightarrow> (\<exists>a b. s = a @ sub @ b)"
proof (induction s)
  case Nil
  then show ?case by auto
next
  case (Cons c s)
  have "(\<exists>a b. c # s = a @ sub @ b) \<longleftrightarrow> (\<exists>b. c # s = sub @ b) \<or> (\<exists>a b. s = a @ sub @ b)"
  proof
    assume "\<exists>a b. c # s = a @ sub @ b"
    then obtain a b where ab: "c # s = a @ sub @ b" by blast
    show "(\<exists>b. c # s = sub @ b) \<or> (\<exists>a b. s = a @ sub @ b)"
    proof (cases a)
      case Nil
      with ab show ?thesis by auto
    next
      case (Cons x a')
      with ab have "s = a' @ sub @ b" by simp
      then show ?thesis by blast
    qed
  next
    assume "(\<exists>b. c # s = sub @ b) \<or> (\<exists>a b. s = a @ sub @ b)"
    then show "\<exists>a b. c # s = a @ sub @ b"
    proof
      assume "\<exists>b. c # s = sub @ b"
      then obtain b where "c # s = [] @ sub @ b" by auto
      then show ?thesis by blast
    next
      assume "\<exists>a b. s = a @ sub @ b"
      then obtain a b where "c # s = (c # a) @ sub @ b" by auto
      then show ?thesis by blast
    qed
  qed
  with Cons show ?case by (auto simp: HasPrefix_iff)
qed

lemma Contains_iff: "Contains s sub \<longleftrightarrow> (\<exists>a b. s = a @ sub @ b)"
  unfolding Contains_def by (rule Index_None_iff)

lemma element_ok_ascii: "element_ok e \<Longrightarrow> list_all ascii e"
  using import_char_ascii by (auto simp: element_ok_def list_all_iff)

lemma checkPathRest_import:
  "checkPathRest isLetter path False 0 0 = None \<longleftrightarrow>
   list_all element_ok (splitOn CHR ''/'' path)"
proof
  assume ok: "checkPathRest isLetter path False 0 0 = None"
  then have "list_all ascii path"
    using checkPathRest_nonascii [of 0 path 0 isLetter] by auto
  then have "list_all (\<lambda>e. checkElem isLetter e False = None) (splitOn CHR ''/'' path)"
    using checkPathRest_ascii [of path 0 0 isLetter False] ok by (simp add: slice_def)
  then show "list_all element_ok (splitOn CHR ''/'' path)"
    by (simp add: checkElem_import)
next
  assume ok: "list_all element_ok (splitOn CHR ''/'' path)"
  then have "list_all (list_all ascii) (splitOn CHR ''/'' path)"
    using element_ok_ascii by (auto simp: list_all_iff)
  moreover have "ascii CHR ''/''" by (simp add: ascii_def byte_def)
  ultimately have "list_all ascii path" by (rule splitOn_all)
  then show "checkPathRest isLetter path False 0 0 = None"
    using checkPathRest_ascii [of path 0 0 isLetter False] ok
    by (simp add: slice_def checkElem_import)
qed

lemma checkPath_import:
  "checkPath isLetter path False = None \<longleftrightarrow>
     ValidString path \<and> path \<noteq> [] \<and> \<not> (\<exists>a b. path = a @ ''..'' @ b) \<and>
     \<not> (\<exists>a b. path = a @ ''//'' @ b) \<and> last path \<noteq> CHR ''/'' \<and>
     list_all element_ok (splitOn CHR ''/'' path)"
proof -
  have "checkPath isLetter path False = None \<longleftrightarrow>
     ValidString path \<and> path \<noteq> [] \<and> \<not> Contains path ''..'' \<and> \<not> Contains path ''//'' \<and>
     path ! (length path - 1) \<noteq> CHR ''/'' \<and> checkPathRest isLetter path False 0 0 = None"
    unfolding checkPath_def checkPathRest_def by (auto split: sum.splits)
  moreover have "path \<noteq> [] \<Longrightarrow> path ! (length path - 1) = last path"
    by (simp add: last_conv_nth)
  ultimately show ?thesis
    unfolding Contains_iff checkPathRest_import by auto
qed

section \<open>Module paths and import paths\<close>

text \<open>
  C7. The module-path check is strictly stronger than the import-path check: every
  path that \<open>CheckPath\<close> accepts is accepted by \<open>CheckImportPath\<close>, and there is a
  path (\<open>Example.com/pkg\<close>, upper case in its first element) that
  \<open>CheckImportPath\<close> accepts and \<open>CheckPath\<close> rejects.
\<close>

theorem CheckPath_stronger:
  "(CheckPath isLetter p = None \<longrightarrow> CheckImportPath isLetter p = None) \<and>
   CheckImportPath isLetter ''Example.com/pkg'' = None \<and>
   CheckPath isLetter ''Example.com/pkg'' \<noteq> None"
proof -
  have "CheckPath isLetter p = None \<longrightarrow> CheckImportPath isLetter p = None"
    by (auto simp: CheckPath_def CheckImportPath_def split: option.splits)
  moreover have "CheckImportPath isLetter ''Example.com/pkg'' = None"
    by code_simp
  moreover have "CheckPath isLetter ''Example.com/pkg'' =
      Some (InvalidCharFirst ''Example.com/pkg'' 69)"
    by code_simp
  ultimately show ?thesis by simp
qed

theorem CheckPath_stronger_witness:
  "CheckPath IsLetter_Latin1 ''example.com/pkg/v2'' = None \<and>
   CheckImportPath IsLetter_Latin1 ''example.com/pkg/v2'' = None"
proof -
  have a: "CheckPath IsLetter_Latin1 ''example.com/pkg/v2'' = None" by code_simp
  show ?thesis
    using a CheckPath_stronger [of IsLetter_Latin1 "''example.com/pkg/v2''"] by blast
qed

text \<open>
  C6. \<open>CheckImportPath\<close> accepts a path if and only if the path is valid UTF-8, is
  not empty, contains neither \<open>..\<close> nor \<open>//\<close>, does not end in a slash, and each of
  its slash-separated elements is not empty, does not consist of dots only, does not
  start or end with a dot, has only ASCII letters, digits and \<open>+ - . _ ~\<close>, and has
  before its first dot no name of the reserved list (CON, PRN, AUX, NUL, COM1 to
  COM9, LPT1 to LPT9) in any casing.
\<close>

theorem CheckImportPath_iff:
  "CheckImportPath isLetter path = None \<longleftrightarrow>
     ValidString path \<and> path \<noteq> [] \<and> \<not> (\<exists>a b. path = a @ ''..'' @ b) \<and>
     \<not> (\<exists>a b. path = a @ ''//'' @ b) \<and> last path \<noteq> CHR ''/'' \<and>
     list_all element_ok (splitOn CHR ''/'' path)"
proof -
  have "CheckImportPath isLetter path = None \<longleftrightarrow> checkPath isLetter path False = None"
    by (simp add: CheckImportPath_def split: option.splits)
  then show ?thesis by (simp only: checkPath_import)
qed

theorem CheckImportPath_iff_witness:
  "CheckImportPath IsLetter_Latin1 ''example.com/Pkg_1/v2'' = None \<and>
   ValidString ''example.com/Pkg_1/v2'' \<and>
   list_all element_ok (splitOn CHR ''/'' ''example.com/Pkg_1/v2'') \<and>
   \<not> list_all element_ok (splitOn CHR ''/'' ''example.com/com1.txt'') \<and>
   CheckImportPath IsLetter_Latin1 ''example.com/com1.txt'' \<noteq> None"
proof -
  have a: "CheckImportPath IsLetter_Latin1 ''example.com/Pkg_1/v2'' = None" by code_simp
  have b: "\<not> list_all element_ok (splitOn CHR ''/'' ''example.com/com1.txt'')" by code_simp
  show ?thesis
    using a b CheckImportPath_iff [of IsLetter_Latin1 "''example.com/Pkg_1/v2''"]
      CheckImportPath_iff [of IsLetter_Latin1 "''example.com/com1.txt''"]
    by blast
qed

section \<open>Escaping and unescaping\<close>

lemma byte_consts:
  "byte CHR ''!'' = 33" "byte CHR ''A'' = 65" "byte CHR ''Z'' = 90"
  "byte CHR ''a'' = 97" "byte CHR ''z'' = 122"
  by (simp_all add: byte_def)

lemma isUpper_byte: "isUpper c \<longleftrightarrow> 65 \<le> byte c \<and> byte c \<le> 90"
  unfolding isUpper_def byte_le [symmetric] byte_consts ..

lemma bang_byte: "byte c = 33 \<longleftrightarrow> c = CHR ''!''"
  using byte_inj [of c "CHR ''!''"] by (simp add: byte_consts)

lemma escapeScan_bad:
  "\<exists>r \<in> set rs. r = 33 \<or> 128 \<le> r \<Longrightarrow> escapeScan rs haveUpper = None"
  by (induction rs arbitrary: haveUpper) (auto simp: byte_consts RuneSelf_def)

lemma escapeScan_plain:
  "plain s \<Longrightarrow>
   escapeScan (map byte s) haveUpper = Some (haveUpper \<or> list_ex isUpper s)"
  by (induction s arbitrary: haveUpper)
     (auto simp: plain_def ascii_def byte_consts RuneSelf_def bang_byte isUpper_byte)

lemma escapeBuild_rule:
  "escapeBuild (map byte s) buf = buf @ escape_rule s"
proof (induction s arbitrary: buf)
  case Nil
  then show ?case by (simp add: escape_rule_def)
next
  case (Cons c s)
  have "byte c + 97 - 65 = byte c + 32" by simp
  then have "isUpper c \<Longrightarrow> char_of (byte c + 97 - 65) = asciiLower c"
    by (simp only: asciiLower_def if_True)
  with Cons show ?case
    by (simp add: escape_rule_def byte_consts isUpper_byte [symmetric] char_of_byte)
qed

lemma escape_rule_no_upper: "\<not> list_ex isUpper s \<Longrightarrow> escape_rule s = s"
  by (induction s) (auto simp: escape_rule_def)

lemma escapeString_plain: "plain s \<Longrightarrow> escapeString s = Inr (escape_rule s)"
proof -
  assume p: "plain s"
  then have "list_all ascii s" by (simp add: plain_def list_all_iff)
  then have r: "runes s = map byte s" by (rule runes_ascii)
  show ?thesis
    unfolding escapeString_def r escapeScan_plain [OF p]
    by (simp add: escapeBuild_rule escape_rule_no_upper)
qed

lemma escapeString_not_plain: "\<not> plain s \<Longrightarrow> escapeString s = Inl InternalInconsistency"
proof -
  assume np: "\<not> plain s"
  have "\<exists>r \<in> set (runes s). r = 33 \<or> 128 \<le> r"
  proof (cases "list_all ascii s")
    case True
    with np obtain c where "c \<in> set s" "c = CHR ''!''"
      by (auto simp: plain_def list_all_iff)
    then have "33 \<in> set (map byte s)" using byte_consts(1) by force
    with True show ?thesis by (auto simp: runes_ascii)
  next
    case False
    then show ?thesis using runes_nonascii by blast
  qed
  then show ?thesis by (simp add: escapeString_def escapeScan_bad)
qed

lemma asciiLower_upper: "isUpper c \<Longrightarrow> byte (asciiLower c) = byte c + 32"
  by (simp add: asciiLower_byte isUpper_byte)

lemma escape_rule_ascii: "plain s \<Longrightarrow> list_all ascii (escape_rule s)"
  by (induction s)
     (auto simp: escape_rule_def plain_def ascii_def asciiLower_upper isUpper_byte byte_consts)

lemma unescapeLoop_rule:
  "plain s \<Longrightarrow> unescapeLoop (map byte (escape_rule s)) False buf = Some (buf @ s)"
proof (induction s arbitrary: buf)
  case Nil
  then show ?case by (simp add: escape_rule_def)
next
  case (Cons c s)
  from Cons.prems have c: "byte c < 128" "byte c \<noteq> 33" and s: "plain s"
    by (simp_all add: plain_def ascii_def bang_byte)
  have e: "escape_rule (c # s) =
      (if isUpper c then [CHR ''!'', asciiLower c] else [c]) @ escape_rule s"
    by (simp add: escape_rule_def)
  show ?case
  proof (cases "isUpper c")
    case True
    then have l: "byte (asciiLower c) = byte c + 32" by (rule asciiLower_upper)
    have "char_of (byte c + 32 + 65 - 97) = c"
      using char_of_byte [of c] by simp
    with True l c show ?thesis
      using Cons.IH [OF s, of "buf @ [c]"]
      by (simp add: e byte_consts RuneSelf_def isUpper_byte)
  next
    case False
    then have "\<not> (65 \<le> byte c \<and> byte c \<le> 90)" by (simp add: isUpper_byte)
    with False c show ?thesis
      using Cons.IH [OF s, of "buf @ [c]"]
      by (simp add: e byte_consts RuneSelf_def char_of_byte)
  qed
qed

lemma unescapeString_rule: "plain s \<Longrightarrow> unescapeString (escape_rule s) = Some s"
  using unescapeLoop_rule [of s "[]"]
  by (simp add: unescapeString_def runes_ascii escape_rule_ascii)

lemma unescapeLoop_ascii:
  "unescapeLoop rs bang buf = Some p \<Longrightarrow> \<forall>r \<in> set rs. r < 128"
  by (induction rs bang buf rule: unescapeLoop.induct)
     (auto simp: RuneSelf_def split: if_splits)

lemma unescapeLoop_inverse:
  "(unescapeLoop (map byte e) False buf = Some p \<longrightarrow>
      (\<exists>q. p = buf @ q \<and> plain q \<and> escape_rule q = e)) \<and>
   (unescapeLoop (map byte e) True buf = Some p \<longrightarrow>
      (\<exists>q. p = buf @ q \<and> plain q \<and> escape_rule q = CHR ''!'' # e))"
proof (induction e arbitrary: buf)
  case Nil
  show ?case by (simp add: plain_def escape_rule_def)
next
  case (Cons c e)
  show ?case
  proof (intro conjI impI)
    assume a: "unescapeLoop (map byte (c # e)) False buf = Some p"
    then have lt: "byte c < 128" by (auto simp: RuneSelf_def split: if_splits)
    show "\<exists>q. p = buf @ q \<and> plain q \<and> escape_rule q = c # e"
    proof (cases "c = CHR ''!''")
      case True
      with a lt have "unescapeLoop (map byte e) True buf = Some p"
        by (simp add: RuneSelf_def byte_consts)
      with Cons.IH [of buf] True show ?thesis by blast
    next
      case False
      then have nb: "byte c \<noteq> 33" by (simp add: bang_byte)
      with a lt have nu: "\<not> isUpper c"
        by (auto simp: RuneSelf_def byte_consts isUpper_byte split: if_splits)
      then have "\<not> (65 \<le> byte c \<and> byte c \<le> 90)" by (simp add: isUpper_byte)
      with a lt nb have "unescapeLoop (map byte e) False (buf @ [c]) = Some p"
        by (simp add: RuneSelf_def byte_consts char_of_byte)
      with Cons.IH [of "buf @ [c]"] obtain q where
        q: "p = (buf @ [c]) @ q" "plain q" "escape_rule q = e" by blast
      from q nu lt False have "p = buf @ (c # q) \<and> plain (c # q) \<and> escape_rule (c # q) = c # e"
        by (simp add: plain_def escape_rule_def ascii_def)
      then show ?thesis by blast
    qed
  next
    assume a: "unescapeLoop (map byte (c # e)) True buf = Some p"
    then have lt: "byte c < 128" and lo: "97 \<le> byte c" "byte c \<le> 122"
      by (auto simp: RuneSelf_def byte_consts split: if_splits)
    define C where "C = char_of (byte c + 65 - 97)"
    have bC: "byte C = byte c - 32"
      unfolding C_def using lo by (simp add: byte_char_of)
    then have uC: "isUpper C" using lo by (simp add: isUpper_byte)
    have lC: "asciiLower C = c"
    proof -
      have "byte (asciiLower C) = byte c" using asciiLower_upper [OF uC] bC by simp
      then show ?thesis by (simp only: byte_inj)
    qed
    have nC: "C \<noteq> CHR ''!''" using bC lo bang_byte [of C] by auto
    have aC: "ascii C" using bC lo by (simp add: ascii_def)
    from a lt lo have "unescapeLoop (map byte e) False (buf @ [C]) = Some p"
      by (simp add: RuneSelf_def byte_consts C_def)
    with Cons.IH [of "buf @ [C]"] obtain q where
      q: "p = (buf @ [C]) @ q" "plain q" "escape_rule q = e" by blast
    from q uC lC nC aC
    have "p = buf @ (C # q) \<and> plain (C # q) \<and> escape_rule (C # q) = CHR ''!'' # c # e"
      by (simp add: plain_def escape_rule_def)
    then show "\<exists>q. p = buf @ q \<and> plain q \<and> escape_rule q = CHR ''!'' # c # e" by blast
  qed
qed

lemma unescapeString_inverse:
  assumes "unescapeString e = Some p"
  shows "plain p \<and> escape_rule p = e"
proof -
  from assms have "\<forall>r \<in> set (runes e). r < 128"
    unfolding unescapeString_def by (rule unescapeLoop_ascii)
  then have "list_all ascii e"
    using runes_nonascii [of e] by fastforce
  then have "runes e = map byte e" by (rule runes_ascii)
  with assms have "unescapeLoop (map byte e) False [] = Some p"
    by (simp add: unescapeString_def)
  with unescapeLoop_inverse [of e "[]" p] show ?thesis by auto
qed


lemma import_char_not_bang: "\<not> import_char CHR ''!''"
  by (simp add: import_char_def isLower_def isUpper_def isDigit_def less_eq_char_def)

lemma CheckPath_plain:
  assumes "CheckPath isLetter s = None"
  shows "plain s"
proof -
  from assms have "checkPath isLetter s False = None"
    by (simp add: CheckPath_def split: option.splits)
  then have "list_all element_ok (splitOn CHR ''/'' s)"
    by (simp add: checkPath_import)
  then have "list_all (list_all (\<lambda>c. ascii c \<and> c \<noteq> CHR ''!'')) (splitOn CHR ''/'' s)"
    using import_char_ascii import_char_not_bang
    by (auto simp: list_all_iff element_ok_def)
  moreover have "ascii CHR ''/'' \<and> CHR ''/'' \<noteq> CHR ''!''"
    by (simp add: ascii_def byte_def)
  ultimately show ?thesis
    unfolding plain_def by (rule splitOn_all)
qed

lemma Contains_bang: "Contains v ''!'' \<longleftrightarrow> CHR ''!'' \<in> set v"
  by (simp add: Contains_def Index_single)

lemma version_plain:
  "\<not> Contains v ''!'' \<Longrightarrow> list_all ascii v \<Longrightarrow> plain v"
  by (auto simp: Contains_bang plain_def list_all_iff)

lemma plain_no_bang: "plain v \<Longrightarrow> \<not> Contains v ''!''"
  by (auto simp: Contains_bang plain_def list_all_iff)

lemma plain_ascii: "plain v \<Longrightarrow> list_all ascii v"
  by (auto simp: plain_def list_all_iff)

lemma EscapePath_roundtrip:
  assumes "CheckPath isLetter s = None"
  shows "EscapePath isLetter s = Inr (escape_rule s) \<and>
         UnescapePath isLetter (escape_rule s) = Inr s"
proof -
  have p: "plain s" using assms by (rule CheckPath_plain)
  show ?thesis
    using assms
    by (simp add: EscapePath_def UnescapePath_def escapeString_plain [OF p]
        unescapeString_rule [OF p])
qed

lemma EscapeVersion_roundtrip:
  assumes "checkElem isLetter v True = None" "\<not> Contains v ''!''" "list_all ascii v"
  shows "EscapeVersion isLetter v = Inr (escape_rule v) \<and>
         UnescapeVersion isLetter (escape_rule v) = Inr v"
proof -
  have p: "plain v" using assms(2,3) by (rule version_plain)
  show ?thesis
    using assms
    by (simp add: EscapeVersion_def UnescapeVersion_def escapeString_plain [OF p]
        unescapeString_rule [OF p])
qed

lemma EscapeVersion_nonascii:
  assumes "checkElem isLetter v True = None" "\<not> Contains v ''!''" "\<not> list_all ascii v"
  shows "EscapeVersion isLetter v = Inl InternalInconsistency"
proof -
  have "\<not> plain v" using assms(3) plain_ascii by blast
  then show ?thesis
    using assms by (simp add: EscapeVersion_def escapeString_not_plain)
qed

lemma UnescapePath_roundtrip:
  assumes "UnescapePath isLetter e = Inr p"
  shows "EscapePath isLetter p = Inr e"
proof -
  from assms have u: "unescapeString e = Some p" and c: "CheckPath isLetter p = None"
    by (auto simp: UnescapePath_def split: option.splits)
  from unescapeString_inverse [OF u] have "plain p" "escape_rule p = e" by simp_all
  with c show ?thesis by (simp add: EscapePath_def escapeString_plain)
qed

lemma UnescapeVersion_roundtrip:
  assumes "UnescapeVersion isLetter e = Inr v"
  shows "EscapeVersion isLetter v = Inr e"
proof -
  from assms have u: "unescapeString e = Some v" and c: "checkElem isLetter v True = None"
    by (auto simp: UnescapeVersion_def split: option.splits)
  from unescapeString_inverse [OF u] have p: "plain v" and e: "escape_rule v = e" by simp_all
  from p have "\<not> Contains v ''!''" by (rule plain_no_bang)
  with c p e show ?thesis by (simp add: EscapeVersion_def escapeString_plain)
qed

lemma EscapePath_Inr:
  assumes "EscapePath isLetter a = Inr e"
  shows "CheckPath isLetter a = None \<and> UnescapePath isLetter e = Inr a"
proof -
  from assms have c: "CheckPath isLetter a = None"
    by (auto simp: EscapePath_def split: option.splits)
  with EscapePath_roundtrip [OF c] assms show ?thesis by simp
qed

lemma EscapeVersion_Inr:
  assumes "EscapeVersion isLetter v = Inr e"
  shows "checkElem isLetter v True = None \<and> \<not> Contains v ''!'' \<and> list_all ascii v \<and>
         UnescapeVersion isLetter e = Inr v"
proof -
  from assms have c: "checkElem isLetter v True = None" "\<not> Contains v ''!''"
    and e: "escapeString v = Inr e"
    by (auto simp: EscapeVersion_def split: if_splits)
  have p: "plain v"
  proof (rule ccontr)
    assume "\<not> plain v"
    then have "escapeString v = Inl InternalInconsistency" by (rule escapeString_not_plain)
    with e show False by simp
  qed
  then have a: "list_all ascii v" by (rule plain_ascii)
  from EscapeVersion_roundtrip [OF c a] assms c a show ?thesis by simp
qed

text \<open>
  C1, as amended. For every path \<open>s\<close> that \<open>CheckPath\<close> accepts, and for every
  version \<open>v\<close> that the file-name element rule accepts, that has no \<open>!\<close> and that
  consists of ASCII bytes only, escaping succeeds and unescaping its result returns
  the string; and for every escaped string that \<open>UnescapePath\<close> or
  \<open>UnescapeVersion\<close> accepts, escaping the result returns the escaped string.
\<close>

theorem escape_roundtrip:
  "(CheckPath isLetter s = None \<longrightarrow>
      (\<exists>e. EscapePath isLetter s = Inr e \<and> UnescapePath isLetter e = Inr s)) \<and>
   (checkElem isLetter v True = None \<and> \<not> Contains v ''!'' \<and> list_all ascii v \<longrightarrow>
      (\<exists>e. EscapeVersion isLetter v = Inr e \<and> UnescapeVersion isLetter e = Inr v)) \<and>
   (UnescapePath isLetter e1 = Inr p \<longrightarrow> EscapePath isLetter p = Inr e1) \<and>
   (UnescapeVersion isLetter e2 = Inr w \<longrightarrow> EscapeVersion isLetter w = Inr e2)"
  using EscapePath_roundtrip [of isLetter s] EscapeVersion_roundtrip [of isLetter v]
    UnescapePath_roundtrip [of isLetter e1 p] UnescapeVersion_roundtrip [of isLetter e2 w]
  by blast

theorem escape_roundtrip_witness:
  "CheckPath IsLetter_Latin1 ''github.com/Azure/azure-sdk-for-go'' = None \<and>
   (\<exists>e. EscapePath IsLetter_Latin1 ''github.com/Azure/azure-sdk-for-go'' = Inr e \<and>
        UnescapePath IsLetter_Latin1 e = Inr ''github.com/Azure/azure-sdk-for-go'') \<and>
   checkElem IsLetter_Latin1 ''v1.0.0-RC1'' True = None \<and> \<not> Contains ''v1.0.0-RC1'' ''!'' \<and>
   list_all ascii ''v1.0.0-RC1'' \<and>
   (\<exists>e. EscapeVersion IsLetter_Latin1 ''v1.0.0-RC1'' = Inr e \<and>
        UnescapeVersion IsLetter_Latin1 e = Inr ''v1.0.0-RC1'') \<and>
   UnescapePath IsLetter_Latin1 ''github.com/!sirupsen/logrus'' = Inr ''github.com/Sirupsen/logrus'' \<and>
   EscapePath IsLetter_Latin1 ''github.com/Sirupsen/logrus'' = Inr ''github.com/!sirupsen/logrus'' \<and>
   UnescapeVersion IsLetter_Latin1 ''v1.0.0-!r!c1'' = Inr ''v1.0.0-RC1'' \<and>
   EscapeVersion IsLetter_Latin1 ''v1.0.0-RC1'' = Inr ''v1.0.0-!r!c1''"
proof -
  have a: "CheckPath IsLetter_Latin1 ''github.com/Azure/azure-sdk-for-go'' = None"
    by code_simp
  have b: "checkElem IsLetter_Latin1 ''v1.0.0-RC1'' True = None \<and>
           \<not> Contains ''v1.0.0-RC1'' ''!'' \<and> list_all ascii ''v1.0.0-RC1''"
    by code_simp
  have c: "UnescapePath IsLetter_Latin1 ''github.com/!sirupsen/logrus'' =
           Inr ''github.com/Sirupsen/logrus''"
    by code_simp
  have d: "UnescapeVersion IsLetter_Latin1 ''v1.0.0-!r!c1'' = Inr ''v1.0.0-RC1''"
    by code_simp
  show ?thesis
    using a b c d
      escape_roundtrip [of IsLetter_Latin1 "''github.com/Azure/azure-sdk-for-go''"
        "''v1.0.0-RC1''" "''github.com/!sirupsen/logrus''" "''github.com/Sirupsen/logrus''"
        "''v1.0.0-!r!c1''" "''v1.0.0-RC1''"]
    by blast
qed

text \<open>
  C1 as stated covers every version that the file-name element rule accepts and that
  has no \<open>!\<close>. That rule admits Unicode letters; \<open>escapeString\<close> refuses every rune
  from \<open>utf8.RuneSelf\<close> on. The version of the two bytes C3 A9 (U+00E9, a letter)
  passes the rule, and escaping it is an error: there is no result to unescape.
\<close>

theorem escape_roundtrip_counterexample:
  "checkElem IsLetter_Latin1 [CHR 0xC3, CHR 0xA9] True = None \<and>
   \<not> Contains [CHR 0xC3, CHR 0xA9] ''!'' \<and>
   ValidString [CHR 0xC3, CHR 0xA9] \<and> runes [CHR 0xC3, CHR 0xA9] = [233] \<and>
   EscapeVersion IsLetter_Latin1 [CHR 0xC3, CHR 0xA9] = Inl InternalInconsistency"
  by code_simp

text \<open>
  C2, as amended. Escaping is injective where it succeeds: two distinct paths that
  \<open>CheckPath\<close> accepts have distinct escaped forms, and so have two distinct
  versions that the file-name element rule accepts, that have no \<open>!\<close> and that
  consist of ASCII bytes only; and whenever escaping succeeds on two paths, or on two
  versions, with the same escaped form, the two are the same string.
\<close>

theorem escape_injective:
  "(CheckPath isLetter a = None \<and> CheckPath isLetter b = None \<and> a \<noteq> b \<longrightarrow>
      EscapePath isLetter a \<noteq> EscapePath isLetter b) \<and>
   (checkElem isLetter v True = None \<and> \<not> Contains v ''!'' \<and> list_all ascii v \<and>
    checkElem isLetter w True = None \<and> \<not> Contains w ''!'' \<and> list_all ascii w \<and> v \<noteq> w \<longrightarrow>
      EscapeVersion isLetter v \<noteq> EscapeVersion isLetter w) \<and>
   (EscapePath isLetter a = Inr e \<and> EscapePath isLetter b = Inr e \<longrightarrow> a = b) \<and>
   (EscapeVersion isLetter v = Inr e \<and> EscapeVersion isLetter w = Inr e \<longrightarrow> v = w)"
proof -
  have p: "a = b" if "EscapePath isLetter a = Inr x" "EscapePath isLetter b = Inr x" for x
  proof -
    have "(Inr a :: error + string) = UnescapePath isLetter x"
      using EscapePath_Inr [OF that(1), THEN conjunct2] by (rule sym)
    also have "\<dots> = Inr b"
      by (rule EscapePath_Inr [OF that(2), THEN conjunct2])
    finally show ?thesis by (rule Inr_inject)
  qed
  have q: "v = w" if "EscapeVersion isLetter v = Inr x" "EscapeVersion isLetter w = Inr x" for x
  proof -
    have "(Inr v :: error + string) = UnescapeVersion isLetter x"
      using EscapeVersion_Inr [OF that(1), THEN conjunct2, THEN conjunct2, THEN conjunct2]
      by (rule sym)
    also have "\<dots> = Inr w"
      by (rule EscapeVersion_Inr [OF that(2), THEN conjunct2, THEN conjunct2, THEN conjunct2])
    finally show ?thesis by (rule Inr_inject)
  qed
  have r: "EscapePath isLetter a \<noteq> EscapePath isLetter b"
    if "CheckPath isLetter a = None" "CheckPath isLetter b = None" "a \<noteq> b"
  proof
    assume eq: "EscapePath isLetter a = EscapePath isLetter b"
    have 1: "EscapePath isLetter a = Inr (escape_rule a)"
      using EscapePath_roundtrip [OF that(1)] by (rule conjunct1)
    have 2: "EscapePath isLetter b = Inr (escape_rule a)"
      using 1 unfolding eq .
    from p [OF 1 2] that(3) show False by (rule notE [rotated])
  qed
  have s: "EscapeVersion isLetter v \<noteq> EscapeVersion isLetter w"
    if "checkElem isLetter v True = None" "\<not> Contains v ''!''" "list_all ascii v"
      "checkElem isLetter w True = None" "\<not> Contains w ''!''" "list_all ascii w" "v \<noteq> w"
  proof
    assume eq: "EscapeVersion isLetter v = EscapeVersion isLetter w"
    have 1: "EscapeVersion isLetter v = Inr (escape_rule v)"
      using EscapeVersion_roundtrip [OF that(1,2,3)] by (rule conjunct1)
    have 2: "EscapeVersion isLetter w = Inr (escape_rule v)"
      using 1 unfolding eq .
    from q [OF 1 2] that(7) show False by (rule notE [rotated])
  qed
  from p q r s show ?thesis by blast
qed

theorem escape_injective_witness:
  "CheckPath IsLetter_Latin1 ''github.com/Azure/sdk'' = None \<and>
   CheckPath IsLetter_Latin1 ''github.com/azure/sdk'' = None \<and>
   EscapePath IsLetter_Latin1 ''github.com/Azure/sdk'' \<noteq>
   EscapePath IsLetter_Latin1 ''github.com/azure/sdk'' \<and>
   EscapeVersion IsLetter_Latin1 ''v1.0.0-RC1'' \<noteq> EscapeVersion IsLetter_Latin1 ''v1.0.0-rc1'' \<and>
   EscapePath IsLetter_Latin1 ''github.com/Azure/sdk'' = Inr ''github.com/!azure/sdk'' \<and>
   EscapeVersion IsLetter_Latin1 ''v1.0.0-RC1'' = Inr ''v1.0.0-!r!c1''"
proof -
  have a: "CheckPath IsLetter_Latin1 ''github.com/Azure/sdk'' = None \<and>
           CheckPath IsLetter_Latin1 ''github.com/azure/sdk'' = None"
    by code_simp
  have b: "checkElem IsLetter_Latin1 ''v1.0.0-RC1'' True = None \<and>
           \<not> Contains ''v1.0.0-RC1'' ''!'' \<and> list_all ascii ''v1.0.0-RC1'' \<and>
           checkElem IsLetter_Latin1 ''v1.0.0-rc1'' True = None \<and>
           \<not> Contains ''v1.0.0-rc1'' ''!'' \<and> list_all ascii ''v1.0.0-rc1''"
    by code_simp
  have c: "''github.com/Azure/sdk'' \<noteq> ''github.com/azure/sdk''" "''v1.0.0-RC1'' \<noteq> ''v1.0.0-rc1''"
    by simp_all
  have d: "EscapePath IsLetter_Latin1 ''github.com/Azure/sdk'' = Inr ''github.com/!azure/sdk''"
    by code_simp
  have e: "EscapeVersion IsLetter_Latin1 ''v1.0.0-RC1'' = Inr ''v1.0.0-!r!c1''"
    by code_simp
  show ?thesis
    using a b c d e
      escape_injective [of IsLetter_Latin1 "''github.com/Azure/sdk''" "''github.com/azure/sdk''"
        "''v1.0.0-RC1''" "''v1.0.0-rc1''" "''github.com/!azure/sdk''"]
      escape_injective [of IsLetter_Latin1 "''github.com/Azure/sdk''" "''github.com/Azure/sdk''"
        "''v1.0.0-RC1''" "''v1.0.0-RC1''" "''v1.0.0-!r!c1''"]
    by blast
qed

text \<open>
  C2 as stated covers every pair of versions that pass the file-name element rule
  without \<open>!\<close>. The two versions U+00E9 (bytes C3 A9) and U+00E8 (bytes C3 A8) pass
  it and are distinct, and escaping gives the same result for both: the internal error.
\<close>

theorem escape_injective_counterexample:
  "checkElem IsLetter_Latin1 [CHR 0xC3, CHR 0xA9] True = None \<and>
   \<not> Contains [CHR 0xC3, CHR 0xA9] ''!'' \<and>
   checkElem IsLetter_Latin1 [CHR 0xC3, CHR 0xA8] True = None \<and>
   \<not> Contains [CHR 0xC3, CHR 0xA8] ''!'' \<and>
   [CHR 0xC3, CHR 0xA9] \<noteq> [CHR 0xC3, CHR 0xA8] \<and>
   EscapeVersion IsLetter_Latin1 [CHR 0xC3, CHR 0xA9] =
   EscapeVersion IsLetter_Latin1 [CHR 0xC3, CHR 0xA8]"
  by code_simp

section \<open>Path and version\<close>

lemma MatchPathMajor_empty:
  "MatchPathMajor sv v [] \<longleftrightarrow>
     Major sv v = ''v0'' \<or> Major sv v = ''v1'' \<or> Build sv v = ''+incompatible''"
  by (simp add: MatchPathMajor_def HasPrefix_def Let_def)

lemma MatchPathMajor_slash:
  "MatchPathMajor sv v (''/v'' @ n) \<longleftrightarrow> Major sv v = ''v'' @ n"
  by (simp add: MatchPathMajor_def HasPrefix_def slice_def Let_def)

lemma Check_iff:
  "Check sv isLetter path version = None \<longleftrightarrow>
     CheckPath isLetter path = None \<and> IsValid sv version \<and>
     MatchPathMajor sv version (split_pathMajor (SplitPathVersion path))"
  by (simp add: Check_def Let_def split: option.splits)

lemma Check_mismatch:
  assumes "CheckPath isLetter path = None" "IsValid sv version"
    "\<not> MatchPathMajor sv version (split_pathMajor (SplitPathVersion path))"
  shows "Check sv isLetter path version =
         Some (MismatchedMajor path version (wanted (split_pathMajor (SplitPathVersion path))))"
proof -
  define pm where "pm = split_pathMajor (SplitPathVersion path)"
  have "(let pathMajor1 = (if pm = [] then ''v0 or v1'' else pm);
             pathMajor2 = (if pathMajor1 ! 0 = CHR ''.''
                           then slice pathMajor1 1 (length pathMajor1) else pathMajor1)
         in pathMajor2) = wanted pm"
    by (cases pm) (simp_all add: wanted_def Let_def slice_def)
  then show ?thesis
    using assms unfolding Check_def pm_def [symmetric] by (simp add: Let_def)
qed

lemma unstable_suffix:
  assumes "marker = [] \<or> marker = ''-unstable''" "list_all isDigit digits"
  shows "HasSuffix (pre @ ''v'' @ digits @ marker) ''-unstable'' \<longleftrightarrow> marker = ''-unstable''"
proof
  assume h: "HasSuffix (pre @ ''v'' @ digits @ marker) ''-unstable''"
  show "marker = ''-unstable''"
  proof (rule ccontr)
    assume "marker \<noteq> ''-unstable''"
    with assms(1) have m: "marker = []" by simp
    from HasSuffix_last [OF h] have l: "last (pre @ ''v'' @ digits @ marker) = CHR ''e''"
      by simp
    show False
    proof (cases digits rule: rev_cases)
      case Nil
      with m l show False by simp
    next
      case (snoc ds d)
      with m l have "d = CHR ''e''" by simp
      with snoc assms(2) show False by (simp add: isDigit_def)
    qed
  qed
next
  assume "marker = ''-unstable''"
  then show "HasSuffix (pre @ ''v'' @ digits @ marker) ''-unstable''"
    using HasSuffix_append [of "pre @ ''v'' @ digits" "''-unstable''"] by simp
qed

lemma MatchPathMajor_dot:
  assumes m: "marker = [] \<or> marker = ''-unstable''" and d: "list_all isDigit n"
  shows "MatchPathMajor sv v (''.v'' @ n @ marker) \<longleftrightarrow>
           Major sv v = ''v'' @ n \<or> n = ''1'' \<and> HasPrefix v ''v0.0.0-''"
proof -
  have p: "HasPrefix (''.v'' @ n @ marker) ''.v''" by (simp add: HasPrefix_def)
  have s: "HasSuffix (''.v'' @ n @ marker) ''-unstable'' \<longleftrightarrow> marker = ''-unstable''"
    using unstable_suffix [OF m d, of "''.''"] by simp
  have t: "(if HasPrefix (''.v'' @ n @ marker) ''.v'' \<and> HasSuffix (''.v'' @ n @ marker) ''-unstable''
            then TrimSuffix (''.v'' @ n @ marker) ''-unstable'' else ''.v'' @ n @ marker) = ''.v'' @ n"
  proof (cases "marker = ''-unstable''")
    case True
    then have "TrimSuffix (''.v'' @ n @ marker) ''-unstable'' = ''.v'' @ n"
      using s by (simp add: TrimSuffix_def)
    with True p s show ?thesis by simp
  next
    case False
    with m have "marker = []" by simp
    with False p s show ?thesis by simp
  qed
  show ?thesis
    unfolding MatchPathMajor_def t Let_def
    by (auto simp: slice_def)
qed

lemma split_shape:
  assumes ok: "split_ok (SplitPathVersion path)"
  shows "split_pathMajor (SplitPathVersion path) = [] \<or>
         (\<exists>n. n \<noteq> [] \<and> list_all isDigit n \<and>
              split_pathMajor (SplitPathVersion path) = ''/v'' @ n) \<or>
         (\<exists>n marker. list_all isDigit n \<and> (marker = [] \<or> marker = ''-unstable'') \<and>
              split_pathMajor (SplitPathVersion path) = ''.v'' @ n @ marker)"
proof (cases "HasPrefix path ''gopkg.in/''")
  case True
  then have eq: "SplitPathVersion path = splitGopkgIn path"
    by (simp add: SplitPathVersion_def)
  have "\<exists>pre digits marker. path = pre @ ''.v'' @ digits @ marker \<and>
          (marker = [] \<or> marker = ''-unstable'') \<and> list_all isDigit digits"
  proof (rule ccontr)
    assume "\<not> ?thesis"
    then have "splitGopkgIn path = (path, [], False)"
      by (rule splitGopkgIn_no_shape [OF True])
    with ok eq show False by (simp add: split_ok_def)
  qed
  then obtain pre digits marker where d: "path = pre @ ''.v'' @ digits @ marker"
    "marker = [] \<or> marker = ''-unstable''" "list_all isDigit digits"
    by blast
  from ok eq splitGopkgIn_shape [OF True d]
  have "SplitPathVersion path = (pre, ''.v'' @ digits @ marker, True)"
    by (auto simp: split_ok_def split: if_splits)
  then have "split_pathMajor (SplitPathVersion path) = ''.v'' @ digits @ marker"
    by (simp add: split_pathMajor_def)
  with d show ?thesis by blast
next
  case False
  show ?thesis
  proof (cases "\<exists>pre run. path = pre @ ''/v'' @ run \<and> run \<noteq> [] \<and> list_all digdot run")
    case True
    then obtain pre run where c: "path = pre @ ''/v'' @ run" "run \<noteq> []" "list_all digdot run"
      by blast
    from ok SplitPathVersion_candidate [OF False c]
    have nd: "CHR ''.'' \<notin> set run" and r: "SplitPathVersion path = (pre, ''/v'' @ run, True)"
      by (auto simp: split_ok_def split: if_splits)
    from c(3) nd have "list_all isDigit run"
      by (auto simp: list_all_iff digdot_def)
    moreover from r have "split_pathMajor (SplitPathVersion path) = ''/v'' @ run"
      by (simp add: split_pathMajor_def)
    ultimately show ?thesis using c(2) by blast
  next
    case no: False
    then have "SplitPathVersion path = (path, [], True)"
      by (rule SplitPathVersion_no_candidate [OF False])
    then show ?thesis by (simp add: split_pathMajor_def)
  qed
qed

lemma CheckPath_split_ok:
  "CheckPath isLetter path = None \<Longrightarrow> split_ok (SplitPathVersion path)"
  by (auto simp: CheckPath_def Let_def split: option.splits if_splits)

lemma wanted_shapes:
  "wanted [] = ''v0 or v1'' \<and> wanted (''/v'' @ n) = ''/v'' @ n \<and>
   wanted (''.v'' @ n @ marker) = ''v'' @ n @ marker"
  by (simp add: wanted_def)

text \<open>
  C3, as amended. \<open>Check\<close> succeeds only when the path passes \<open>CheckPath\<close> and the
  version is a valid semantic version. The suffix \<open>pm\<close> of a path that passes is
  empty, \<open>/vN\<close>, or \<open>.vN\<close> with an optional \<open>-unstable\<close>, and \<open>Check\<close> then
  succeeds exactly when the version matches the suffix: for a path without suffix the
  major version is \<open>v0\<close> or \<open>v1\<close>, or the build metadata is \<open>+incompatible\<close>; for
  \<open>/vN\<close> the major version is \<open>vN\<close>; for \<open>.vN\<close> and \<open>.vN-unstable\<close> the major
  version is \<open>vN\<close>, or \<open>N\<close> is 1 and the version begins with \<open>v0.0.0-\<close>. When path
  and version are valid and \<open>Check\<close> fails, the error carries the path, the version
  and the expected major version: \<open>v0 or v1\<close> for a path without suffix, otherwise
  the suffix (a suffix \<open>.vN\<close> without its dot).
\<close>

theorem Check_succeeds_iff:
  assumes pm: "pm = split_pathMajor (SplitPathVersion path)"
  shows
  "(Check sv isLetter path version = None \<longrightarrow>
      CheckPath isLetter path = None \<and> IsValid sv version) \<and>
   (CheckPath isLetter path = None \<longrightarrow>
      pm = [] \<or>
      (\<exists>k. k \<noteq> [] \<and> list_all isDigit k \<and> pm = ''/v'' @ k) \<or>
      (\<exists>k m. list_all isDigit k \<and> (m = [] \<or> m = ''-unstable'') \<and> pm = ''.v'' @ k @ m)) \<and>
   (CheckPath isLetter path = None \<and> IsValid sv version \<and> pm = [] \<longrightarrow>
      (Check sv isLetter path version = None \<longleftrightarrow>
         Major sv version = ''v0'' \<or> Major sv version = ''v1'' \<or>
         Build sv version = ''+incompatible'')) \<and>
   (CheckPath isLetter path = None \<and> IsValid sv version \<and> pm = ''/v'' @ n \<longrightarrow>
      (Check sv isLetter path version = None \<longleftrightarrow> Major sv version = ''v'' @ n)) \<and>
   (CheckPath isLetter path = None \<and> IsValid sv version \<and> pm = ''.v'' @ n @ marker \<and>
    list_all isDigit n \<and> (marker = [] \<or> marker = ''-unstable'') \<longrightarrow>
      (Check sv isLetter path version = None \<longleftrightarrow>
         Major sv version = ''v'' @ n \<or> n = ''1'' \<and> HasPrefix version ''v0.0.0-'')) \<and>
   (CheckPath isLetter path = None \<and> IsValid sv version \<and>
    Check sv isLetter path version \<noteq> None \<longrightarrow>
      Check sv isLetter path version = Some (MismatchedMajor path version (wanted pm))) \<and>
   wanted [] = ''v0 or v1'' \<and> wanted (''/v'' @ n) = ''/v'' @ n \<and>
   wanted (''.v'' @ n @ marker) = ''v'' @ n @ marker"
proof -
  note c = Check_iff [of sv isLetter path version, folded pm]
  have 1: "Check sv isLetter path version = None \<longrightarrow>
      CheckPath isLetter path = None \<and> IsValid sv version"
    using c by blast
  have 2: "CheckPath isLetter path = None \<longrightarrow>
      pm = [] \<or>
      (\<exists>k. k \<noteq> [] \<and> list_all isDigit k \<and> pm = ''/v'' @ k) \<or>
      (\<exists>k m. list_all isDigit k \<and> (m = [] \<or> m = ''-unstable'') \<and> pm = ''.v'' @ k @ m)"
    using split_shape [OF CheckPath_split_ok, of isLetter path] unfolding pm by blast
  have 3: "CheckPath isLetter path = None \<and> IsValid sv version \<and> pm = [] \<longrightarrow>
      (Check sv isLetter path version = None \<longleftrightarrow>
         Major sv version = ''v0'' \<or> Major sv version = ''v1'' \<or>
         Build sv version = ''+incompatible'')"
    using c MatchPathMajor_empty [of sv version] by auto
  have 4: "CheckPath isLetter path = None \<and> IsValid sv version \<and> pm = ''/v'' @ n \<longrightarrow>
      (Check sv isLetter path version = None \<longleftrightarrow> Major sv version = ''v'' @ n)"
    using c MatchPathMajor_slash [of sv version n] by auto
  have 5: "CheckPath isLetter path = None \<and> IsValid sv version \<and> pm = ''.v'' @ n @ marker \<and>
    list_all isDigit n \<and> (marker = [] \<or> marker = ''-unstable'') \<longrightarrow>
      (Check sv isLetter path version = None \<longleftrightarrow>
         Major sv version = ''v'' @ n \<or> n = ''1'' \<and> HasPrefix version ''v0.0.0-'')"
    using c MatchPathMajor_dot [of marker n sv version] by auto
  have 6: "CheckPath isLetter path = None \<and> IsValid sv version \<and>
    Check sv isLetter path version \<noteq> None \<longrightarrow>
      Check sv isLetter path version = Some (MismatchedMajor path version (wanted pm))"
    using c Check_mismatch [of isLetter path sv version, folded pm]
    by (cases "MatchPathMajor sv version pm") auto
  from 1 2 3 4 5 6 wanted_shapes [of n marker] show ?thesis by blast
qed

theorem Check_succeeds_iff_witness:
  "split_pathMajor (SplitPathVersion ''example.com/pkg/v2'') = ''/v'' @ ''2'' \<and>
   Check semver_model IsLetter_Latin1 ''example.com/pkg/v2'' ''v2.0.0'' = None \<and>
   CheckPath IsLetter_Latin1 ''example.com/pkg/v2'' = None \<and>
   IsValid semver_model ''v2.0.0'' \<and> Major semver_model ''v2.0.0'' = ''v'' @ ''2'' \<and>
   Check semver_model IsLetter_Latin1 ''example.com/pkg/v2'' ''v1.0.0'' =
     Some (MismatchedMajor ''example.com/pkg/v2'' ''v1.0.0'' ''/v2'') \<and>
   split_pathMajor (SplitPathVersion ''example.com/pkg'') = [] \<and>
   Check semver_model IsLetter_Latin1 ''example.com/pkg'' ''v1.0.0'' = None \<and>
   Check semver_model IsLetter_Latin1 ''example.com/pkg'' ''v3.0.0'' =
     Some (MismatchedMajor ''example.com/pkg'' ''v3.0.0'' ''v0 or v1'') \<and>
   split_pathMajor (SplitPathVersion ''gopkg.in/check.v1'') = ''.v'' @ ''1'' @ [] \<and>
   Check semver_model IsLetter_Latin1 ''gopkg.in/check.v1''
     ''v0.0.0-20161208181325-20d25e280405'' = None \<and>
   split_pathMajor (SplitPathVersion ''gopkg.in/yaml.v2-unstable'') = ''.v'' @ ''2'' @ ''-unstable'' \<and>
   Check semver_model IsLetter_Latin1 ''gopkg.in/yaml.v2-unstable'' ''v3.0.0'' =
     Some (MismatchedMajor ''gopkg.in/yaml.v2-unstable'' ''v3.0.0'' ''v2-unstable'')"
proof -
  have p1: "CheckPath IsLetter_Latin1 ''example.com/pkg/v2'' = None" by code_simp
  have p2: "CheckPath IsLetter_Latin1 ''example.com/pkg'' = None" by code_simp
  have p3: "CheckPath IsLetter_Latin1 ''gopkg.in/check.v1'' = None" by code_simp
  have p4: "CheckPath IsLetter_Latin1 ''gopkg.in/yaml.v2-unstable'' = None" by code_simp
  have s1: "split_pathMajor (SplitPathVersion ''example.com/pkg/v2'') = ''/v'' @ ''2''"
    by code_simp
  have s2: "split_pathMajor (SplitPathVersion ''example.com/pkg'') = []" by code_simp
  have s3: "split_pathMajor (SplitPathVersion ''gopkg.in/check.v1'') = ''.v'' @ ''1'' @ []"
    by code_simp
  have s4: "split_pathMajor (SplitPathVersion ''gopkg.in/yaml.v2-unstable'') =
             ''.v'' @ ''2'' @ ''-unstable''"
    by code_simp
  have v1: "IsValid semver_model ''v2.0.0''" by code_simp
  have v2: "IsValid semver_model ''v1.0.0''" by code_simp
  have v3: "IsValid semver_model ''v3.0.0''" by code_simp
  have v4: "IsValid semver_model ''v0.0.0-20161208181325-20d25e280405''" by code_simp
  note v = v1 v2 v3 v4
  have m1: "Major semver_model ''v2.0.0'' = ''v'' @ ''2''" by code_simp
  have m2: "Major semver_model ''v1.0.0'' = ''v1''" by code_simp
  have m3: "Major semver_model ''v1.0.0'' \<noteq> ''v'' @ ''2''" by code_simp
  have m4: "Major semver_model ''v3.0.0'' \<noteq> ''v0''" by code_simp
  have m5: "Major semver_model ''v3.0.0'' \<noteq> ''v1''" by code_simp
  have m6: "Build semver_model ''v3.0.0'' \<noteq> ''+incompatible''" by code_simp
  have m7: "Major semver_model ''v3.0.0'' \<noteq> ''v'' @ ''2''" by code_simp
  have m8: "HasPrefix ''v0.0.0-20161208181325-20d25e280405'' ''v0.0.0-''" by code_simp
  have m9: "\<not> HasPrefix ''v3.0.0'' ''v0.0.0-''" by code_simp
  note m = m1 m2 m3 m4 m5 m6 m7 m8 m9
  have d1: "list_all isDigit ''1''" by code_simp
  have d2: "list_all isDigit ''2''" by code_simp
  have d3: "''2'' \<noteq> ''1''" by simp
  note d = d1 d2 d3
  have w1: "wanted ([] :: string) = ''v0 or v1''" by code_simp
  have w2: "wanted (''/v'' @ ''2'') = ''/v2''" by code_simp
  have w3: "wanted (''.v'' @ ''2'' @ ''-unstable'') = ''v2-unstable''" by code_simp
  note w = w1 w2 w3
  note a = Check_succeeds_iff [where pm = "''/v'' @ ''2''" and path = "''example.com/pkg/v2''"
      and sv = semver_model and isLetter = IsLetter_Latin1 and n = "''2''" and marker = "[]",
      OF s1 [symmetric]]
  from a [where version = "''v2.0.0''"] p1 v(1) m(1)
  have r1: "Check semver_model IsLetter_Latin1 ''example.com/pkg/v2'' ''v2.0.0'' = None"
    by blast
  from a [where version = "''v1.0.0''"] p1 v(2) m(3)
  have r2: "Check semver_model IsLetter_Latin1 ''example.com/pkg/v2'' ''v1.0.0'' =
     Some (MismatchedMajor ''example.com/pkg/v2'' ''v1.0.0'' (wanted (''/v'' @ ''2'')))"
    by blast
  note b = Check_succeeds_iff [where pm = "[]" and path = "''example.com/pkg''"
      and sv = semver_model and isLetter = IsLetter_Latin1 and n = "''2''" and marker = "[]",
      OF s2 [symmetric]]
  from b [where version = "''v1.0.0''"] p2 v(2) m(2)
  have r3: "Check semver_model IsLetter_Latin1 ''example.com/pkg'' ''v1.0.0'' = None"
    by blast
  from b [where version = "''v3.0.0''"] p2 v(3) m(4,5,6)
  have r4: "Check semver_model IsLetter_Latin1 ''example.com/pkg'' ''v3.0.0'' =
     Some (MismatchedMajor ''example.com/pkg'' ''v3.0.0'' (wanted []))"
    by blast
  from Check_succeeds_iff [where pm = "''.v'' @ ''1'' @ []" and path = "''gopkg.in/check.v1''"
      and sv = semver_model and isLetter = IsLetter_Latin1 and n = "''1''" and marker = "[]"
      and version = "''v0.0.0-20161208181325-20d25e280405''", OF s3 [symmetric]]
    p3 v(4) m(8) d(1)
  have r5: "Check semver_model IsLetter_Latin1 ''gopkg.in/check.v1''
     ''v0.0.0-20161208181325-20d25e280405'' = None"
    by blast
  from Check_succeeds_iff [where pm = "''.v'' @ ''2'' @ ''-unstable''"
      and path = "''gopkg.in/yaml.v2-unstable''"
      and sv = semver_model and isLetter = IsLetter_Latin1 and n = "''2''"
      and marker = "''-unstable''" and version = "''v3.0.0''", OF s4 [symmetric]]
    p4 v(3) m(7,9) d(2,3)
  have r6: "Check semver_model IsLetter_Latin1 ''gopkg.in/yaml.v2-unstable'' ''v3.0.0'' =
     Some (MismatchedMajor ''gopkg.in/yaml.v2-unstable'' ''v3.0.0''
             (wanted (''.v'' @ ''2'' @ ''-unstable'')))"
    by blast
  from r2 r4 r6 w
  have r2': "Check semver_model IsLetter_Latin1 ''example.com/pkg/v2'' ''v1.0.0'' =
       Some (MismatchedMajor ''example.com/pkg/v2'' ''v1.0.0'' ''/v2'')"
    and r4': "Check semver_model IsLetter_Latin1 ''example.com/pkg'' ''v3.0.0'' =
       Some (MismatchedMajor ''example.com/pkg'' ''v3.0.0'' ''v0 or v1'')"
    and r6': "Check semver_model IsLetter_Latin1 ''gopkg.in/yaml.v2-unstable'' ''v3.0.0'' =
       Some (MismatchedMajor ''gopkg.in/yaml.v2-unstable'' ''v3.0.0'' ''v2-unstable'')"
    by simp_all
  from s1 r1 p1 v(1) m(1) r2' s2 r3 r4' s3 r5 s4 r6' show ?thesis by blast
qed

text \<open>
  C3 as stated lets \<open>Check\<close> succeed only when the major version of the version is
  the one of the suffix, \<open>v0\<close> or \<open>v1\<close> for a path without suffix.
  \<open>MatchPathMajor\<close> also accepts, for a path without suffix, every version whose
  build metadata is \<open>+incompatible\<close>: the check of \<open>example.com/pkg\<close> with
  \<open>v3.0.0+incompatible\<close>, of major version \<open>v3\<close>, succeeds. It also accepts a
  version that begins with \<open>v0.0.0-\<close> for the suffix \<open>.v1\<close>: the check of
  \<open>gopkg.in/check.v1\<close> with a pseudo-version of major version \<open>v0\<close> succeeds.
\<close>

theorem Check_incompatible_counterexample:
  "Check semver_model IsLetter_Latin1 ''example.com/pkg'' ''v3.0.0+incompatible'' = None \<and>
   SplitPathVersion ''example.com/pkg'' = (''example.com/pkg'', [], True) \<and>
   Major semver_model ''v3.0.0+incompatible'' = ''v3'' \<and>
   Check semver_model IsLetter_Latin1 ''gopkg.in/check.v1''
     ''v0.0.0-20161208181325-20d25e280405'' = None \<and>
   SplitPathVersion ''gopkg.in/check.v1'' = (''gopkg.in/check'', ''.v1'', True) \<and>
   Major semver_model ''v0.0.0-20161208181325-20d25e280405'' = ''v0''"
  by code_simp

text \<open>
  C9. With an empty suffix \<open>MatchPathMajor\<close> accepts the major versions \<open>v0\<close> and
  \<open>v1\<close> and, whatever the major version, every version whose build metadata is
  \<open>+incompatible\<close>; so \<open>Check\<close> succeeds on a valid path without suffix and a valid
  version with that build metadata, as on \<open>example.com/pkg\<close> with
  \<open>v3.0.0+incompatible\<close>.
\<close>

theorem MatchPathMajor_incompatible:
  "(MatchPathMajor sv v [] \<longleftrightarrow>
      Major sv v = ''v0'' \<or> Major sv v = ''v1'' \<or> Build sv v = ''+incompatible'') \<and>
   (CheckPath isLetter path = None \<and> split_pathMajor (SplitPathVersion path) = [] \<and>
    IsValid sv v \<and> Build sv v = ''+incompatible'' \<longrightarrow>
      Check sv isLetter path v = None) \<and>
   Check semver_model isLetter ''example.com/pkg'' ''v3.0.0+incompatible'' = None \<and>
   split_pathMajor (SplitPathVersion ''example.com/pkg'') = [] \<and>
   Major semver_model ''v3.0.0+incompatible'' = ''v3'' \<and>
   Build semver_model ''v3.0.0+incompatible'' = ''+incompatible''"
proof -
  have "Check semver_model isLetter ''example.com/pkg'' ''v3.0.0+incompatible'' = None"
    by code_simp
  moreover have "split_pathMajor (SplitPathVersion ''example.com/pkg'') = [] \<and>
      Major semver_model ''v3.0.0+incompatible'' = ''v3'' \<and>
      Build semver_model ''v3.0.0+incompatible'' = ''+incompatible''"
    by code_simp
  ultimately show ?thesis
    using MatchPathMajor_empty [of sv v] Check_iff [of sv isLetter path v]
    by simp
qed

theorem MatchPathMajor_incompatible_witness:
  "CheckPath IsLetter_Latin1 ''github.com/x/y'' = None \<and>
   split_pathMajor (SplitPathVersion ''github.com/x/y'') = [] \<and>
   IsValid semver_model ''v12.4.1+incompatible'' \<and>
   Build semver_model ''v12.4.1+incompatible'' = ''+incompatible'' \<and>
   Major semver_model ''v12.4.1+incompatible'' = ''v12'' \<and>
   Check semver_model IsLetter_Latin1 ''github.com/x/y'' ''v12.4.1+incompatible'' = None"
proof -
  have a: "CheckPath IsLetter_Latin1 ''github.com/x/y'' = None \<and>
   split_pathMajor (SplitPathVersion ''github.com/x/y'') = [] \<and>
   IsValid semver_model ''v12.4.1+incompatible'' \<and>
   Build semver_model ''v12.4.1+incompatible'' = ''+incompatible'' \<and>
   Major semver_model ''v12.4.1+incompatible'' = ''v12''"
    by code_simp
  with MatchPathMajor_incompatible [of semver_model "''v12.4.1+incompatible''"
      IsLetter_Latin1 "''github.com/x/y''"]
  show ?thesis by blast
qed

section \<open>The order of Sort\<close>







end
